theory Spec2Isabelle
  imports Main
begin

section \<open>The event loop shared by both components\<close>

text \<open>
  Both Svelte components run on the single-threaded browser event loop.  The model keeps
  a clock in milliseconds, the list of armed single-shot timers (handle, due time,
  callback) in arming order, the next fresh handle, and a log of the calls that leave
  the component (\<open>invoke\<close> to the Tauri backend, \<open>console.warn\<close>).
\<close>

text \<open>
  A JavaScript string is its sequence of UTF-16 code units, which is what \<open>length\<close> and
  \<open>===\<close> see; \<open>js\<close> writes an ASCII literal of the source as such a sequence.
\<close>

type_synonym js_string = "nat list"

definition js :: "string \<Rightarrow> js_string" where
  "js s = map of_char s"

datatype call = Invoke string "js_string option" | Warn nat

record 'cb event_loop =
  now :: nat
  timers :: "(nat \<times> nat \<times> 'cb) list"
  next_timer :: nat
  invoked :: "call list"

definition invoke :: "string \<Rightarrow> ('cb, 'm) event_loop_scheme \<Rightarrow> ('cb, 'm) event_loop_scheme" where
  "invoke cmd s = s\<lparr>invoked := invoked s @ [Invoke cmd None]\<rparr>"

definition setTimeout ::
  "'cb \<Rightarrow> nat \<Rightarrow> ('cb, 'm) event_loop_scheme \<Rightarrow> nat \<times> ('cb, 'm) event_loop_scheme" where
  "setTimeout cb ms s =
     (next_timer s,
      s\<lparr>timers := timers s @ [(next_timer s, now s + ms, cb)],
        next_timer := Suc (next_timer s)\<rparr>)"

definition clearTimeout :: "nat \<Rightarrow> ('cb, 'm) event_loop_scheme \<Rightarrow> ('cb, 'm) event_loop_scheme" where
  "clearTimeout h s = s\<lparr>timers := filter (\<lambda>t. fst t \<noteq> h) (timers s)\<rparr>"

text \<open>The timer that fires next: smallest due time, the one armed first among equals.\<close>

fun earliest :: "(nat \<times> nat \<times> 'cb) list \<Rightarrow> (nat \<times> nat \<times> 'cb) option" where
  "earliest [] = None"
| "earliest (t # ts) =
     (case earliest ts of
        None \<Rightarrow> Some t
      | Some u \<Rightarrow> if fst (snd t) \<le> fst (snd u) then Some t else Some u)"

section \<open>SettingsPanel.svelte: the hotkey recorder\<close>

subsection \<open>The accelerator normalizer (body of \<open>onKeyDown\<close>, lines 22 to 43)\<close>

record key_event =
  key :: js_string
  ctrlKey :: bool
  metaKey :: bool
  shiftKey :: bool
  altKey :: bool

text \<open>\<open>Array.prototype.join\<close>.\<close>

fun join :: "'a list \<Rightarrow> 'a list list \<Rightarrow> 'a list" where
  "join sep [] = []"
| "join sep [x] = x"
| "join sep (x # y # ys) = x @ sep @ join sep (y # ys)"

text \<open>
  The pure part of \<open>onKeyDown\<close>: \<open>None\<close> is the early return on a bare modifier key,
  \<open>Some acc\<close> the string assigned to \<open>hotkey\<close>.  The three \<open>push\<close> statements and the
  rewriting of \<open>key\<close> are kept in the order of the source.  \<open>String.prototype.toUpperCase\<close>
  belongs to the JavaScript runtime and follows the Unicode case mapping, which can
  change a code unit outside ASCII and even the length of the string; it is the
  parameter \<open>toUpperCase\<close>, about which nothing is assumed.
\<close>

definition accelerator :: "(js_string \<Rightarrow> js_string) \<Rightarrow> key_event \<Rightarrow> js_string option" where
  "accelerator toUpperCase e =
     (if key e \<in> set [js ''Control'', js ''Shift'', js ''Alt'', js ''Meta''] then None
      else
        let parts0 = [];
            parts1 = (if metaKey e \<or> ctrlKey e then parts0 @ [js ''CmdOrCtrl''] else parts0);
            parts2 = (if shiftKey e then parts1 @ [js ''Shift''] else parts1);
            parts3 = (if altKey e then parts2 @ [js ''Alt''] else parts2);
            k = (if key e = js '' '' then js ''Space''
                 else if length (key e) = 1 then toUpperCase (key e)
                 else key e);
            parts4 = parts3 @ [k]
        in Some (join (js ''+'') parts4))"

text \<open>
  The normalizer as the specification words it: skip on a bare modifier, otherwise the
  modifier names in the fixed order, each followed by a plus sign, then the mapped key.
\<close>

definition map_terminal_key :: "(js_string \<Rightarrow> js_string) \<Rightarrow> js_string \<Rightarrow> js_string" where
  "map_terminal_key upper k =
     (if k = js '' '' then js ''Space'' else if length k = 1 then upper k else k)"

definition spec_normalize :: "(js_string \<Rightarrow> js_string) \<Rightarrow> key_event \<Rightarrow> js_string option" where
  "spec_normalize upper e =
     (if key e = js ''Control'' \<or> key e = js ''Shift'' \<or> key e = js ''Alt''
         \<or> key e = js ''Meta''
      then None
      else Some ((if ctrlKey e \<or> metaKey e then js ''CmdOrCtrl+'' else [])
               @ (if shiftKey e then js ''Shift+'' else [])
               @ (if altKey e then js ''Alt+'' else [])
               @ map_terminal_key upper (key e)))"

text \<open>
  An upper-casing for concrete runs: what \<open>toUpperCase\<close> does to a string of ASCII code
  units.
\<close>

definition ascii_upper :: "js_string \<Rightarrow> js_string" where
  "ascii_upper k = map (\<lambda>c. if 97 \<le> c \<and> c \<le> 122 then c - 32 else c) k"

subsection \<open>Component state and handlers\<close>

datatype panel_cb = ClearSaved

text \<open>
  \<open>listeners\<close> are the \<open>onKeyDown\<close> closures attached to \<open>window\<close> for \<open>keydown\<close>, in
  attachment order.  Every call of \<open>startRecording\<close> creates a new closure, so
  \<open>addEventListener\<close> never finds it already attached; \<open>next_closure\<close> numbers them.
  \<open>save_in_flight\<close> counts the \<open>set_hotkey\<close> promises not settled yet.
\<close>

record panel = "panel_cb event_loop" +
  hotkey :: js_string
  recording :: bool
  saved :: bool
  error :: string
  listeners :: "nat list"
  next_closure :: nat
  save_in_flight :: nat

definition panel_init :: panel where
  "panel_init =
     \<lparr>now = 0, timers = [], next_timer = 1, invoked = [],
      hotkey = [], recording = False, saved = False, error = '''',
      listeners = [], next_closure = 0, save_in_flight = 0\<rparr>"

text \<open>\<open>onMount\<close>: ask the backend for the stored hotkey; the answer arrives later.\<close>

definition panel_mount :: panel where
  "panel_mount = invoke ''get_hotkey'' panel_init"

definition got_hotkey :: "js_string \<Rightarrow> panel \<Rightarrow> panel" where
  "got_hotkey hk s = s\<lparr>hotkey := hk\<rparr>"

definition startRecording :: "panel \<Rightarrow> panel" where
  "startRecording s =
     (let s1 = s\<lparr>recording := True\<rparr>;
          s2 = s1\<lparr>error := ''''\<rparr>;
          s3 = s2\<lparr>saved := False\<rparr>
      in s3\<lparr>listeners := listeners s3 @ [next_closure s3],
            next_closure := Suc (next_closure s3)\<rparr>)"

text \<open>
  The closure numbered \<open>self\<close> handling a key press.  \<open>e.preventDefault()\<close> acts on the
  event only and leaves the component as it is.
\<close>

definition onKeyDown :: "(js_string \<Rightarrow> js_string) \<Rightarrow> nat \<Rightarrow> key_event \<Rightarrow> panel \<Rightarrow> panel" where
  "onKeyDown toUpperCase self e s =
     (case accelerator toUpperCase e of
        None \<Rightarrow> s
      | Some acc \<Rightarrow>
          let s1 = s\<lparr>hotkey := acc\<rparr>;
              s2 = s1\<lparr>recording := False\<rparr>
          in s2\<lparr>listeners := filter (\<lambda>l. l \<noteq> self) (listeners s2)\<rparr>)"

text \<open>
  Dispatch of one \<open>keydown\<close> event: the listeners attached when dispatch starts are
  called in order, one removed in the meantime is passed over.
\<close>

fun dispatch ::
  "(js_string \<Rightarrow> js_string) \<Rightarrow> nat list \<Rightarrow> key_event \<Rightarrow> panel \<Rightarrow> panel" where
  "dispatch toUpperCase [] e s = s"
| "dispatch toUpperCase (l # ls) e s =
     dispatch toUpperCase ls e
       (if l \<in> set (listeners s) then onKeyDown toUpperCase l e s else s)"

definition keydown :: "(js_string \<Rightarrow> js_string) \<Rightarrow> key_event \<Rightarrow> panel \<Rightarrow> panel" where
  "keydown toUpperCase e s = dispatch toUpperCase (listeners s) e s"

text \<open>
  \<open>saveHotkey\<close> up to its \<open>await\<close>, and its continuation once \<open>set_hotkey\<close> has settled:
  \<open>Inr ()\<close> is acceptance, \<open>Inl msg\<close> a rejection whose \<open>String(e)\<close> is \<open>msg\<close>.
\<close>

definition saveHotkey :: "panel \<Rightarrow> panel" where
  "saveHotkey s =
     s\<lparr>invoked := invoked s @ [Invoke ''set_hotkey'' (Some (hotkey s))],
       save_in_flight := Suc (save_in_flight s)\<rparr>"

definition saveHotkey_settled :: "string + unit \<Rightarrow> panel \<Rightarrow> panel" where
  "saveHotkey_settled r s =
     (if save_in_flight s = 0 then s
      else
        let s0 = s\<lparr>save_in_flight := save_in_flight s - 1\<rparr> in
        case r of
          Inr _ \<Rightarrow>
            let s1 = s0\<lparr>saved := True\<rparr>;
                s2 = s1\<lparr>error := ''''\<rparr>
            in snd (setTimeout ClearSaved 2000 s2)
        | Inl msg \<Rightarrow> s0\<lparr>error := msg\<rparr>)"

text \<open>
  Unmounting: \<open>SettingsPanel.svelte\<close> registers no cleanup (the callback given to
  \<open>onMount\<close> returns nothing, and there is no \<open>onDestroy\<close> and no \<open>$effect\<close>), so no
  code of the component runs and its timers and window listeners stay as they are.
\<close>

definition panel_teardown :: "panel \<Rightarrow> panel" where
  "panel_teardown s = s"

fun panel_fire :: "panel_cb \<Rightarrow> panel \<Rightarrow> panel" where
  "panel_fire ClearSaved s = s\<lparr>saved := False\<rparr>"

text \<open>
  The clock runs to \<open>target\<close>: every timer due by then fires at its due time, earliest
  first.
\<close>

function panel_run_timers :: "nat \<Rightarrow> panel \<Rightarrow> panel" where
  "panel_run_timers target s =
     (case earliest (timers s) of
        None \<Rightarrow> s\<lparr>now := max (now s) target\<rparr>
      | Some (h, due, cb) \<Rightarrow>
          if due \<le> target
          then panel_run_timers target
                 (panel_fire cb (s\<lparr>now := max (now s) due,
                                   timers := filter (\<lambda>t. fst t \<noteq> h) (timers s)\<rparr>))
          else s\<lparr>now := max (now s) target\<rparr>)"
  by pat_completeness auto

lemma earliest_mem: "earliest ts = Some t \<Longrightarrow> t \<in> set ts"
  by (induction ts arbitrary: t) (auto split: option.splits if_splits)

lemma filter_removes_member:
  "(h, d, cb) \<in> set ts \<Longrightarrow> length (filter (\<lambda>t. fst t \<noteq> h) ts) < length ts"
  by (induction ts) (auto simp: less_Suc_eq_le)

lemma panel_fire_timers [simp]: "timers (panel_fire cb s) = timers s"
  by (cases cb) simp

termination panel_run_timers
proof (relation "measure (\<lambda>(target, s). length (timers s))", goal_cases)
  case 1
  show ?case by simp
next
  case (2 target s x2 h y due cb)
  then have "(h, due, cb) \<in> set (timers s)"
    using earliest_mem by fastforce
  then show ?case
    by (simp add: filter_removes_member)
qed

declare panel_run_timers.simps [simp del]

datatype panel_event =
    GotHotkey js_string
  | ClickRecord
  | KeyPress key_event
  | ClickSave
  | SaveSettled "string + unit"
  | PanelElapse nat

text \<open>
  The template disables the save button while \<open>recording\<close> or while \<open>hotkey\<close> is empty;
  the record button is never disabled.
\<close>

fun panel_step :: "(js_string \<Rightarrow> js_string) \<Rightarrow> panel_event \<Rightarrow> panel \<Rightarrow> panel" where
  "panel_step toUpperCase (GotHotkey hk) s = got_hotkey hk s"
| "panel_step toUpperCase ClickRecord s = startRecording s"
| "panel_step toUpperCase (KeyPress e) s = keydown toUpperCase e s"
| "panel_step toUpperCase ClickSave s =
     (if recording s \<or> hotkey s = [] then s else saveHotkey s)"
| "panel_step toUpperCase (SaveSettled r) s = saveHotkey_settled r s"
| "panel_step toUpperCase (PanelElapse d) s = panel_run_timers (now s + d) s"

fun panel_run ::
  "(js_string \<Rightarrow> js_string) \<Rightarrow> panel_event list \<Rightarrow> panel \<Rightarrow> panel" where
  "panel_run toUpperCase [] s = s"
| "panel_run toUpperCase (e # es) s = panel_run toUpperCase es (panel_step toUpperCase e s)"

section \<open>ArtOverlay.svelte: the artwork buffer controller\<close>

subsection \<open>Data\<close>

record Artwork =
  id_str :: string
  title :: string
  artist :: string
  date :: string
  medium :: string
  source :: string
  image_base64 :: string

text \<open>
  The component compares artworks with \<open>!==\<close>, that is by object identity, so an
  artwork held in a variable is a reference: the address of the object together with its
  contents, which this code never mutates.  Each payload of an \<open>artwork-changed\<close> event
  and each result of \<open>get_current_artwork\<close> is a newly deserialised object; \<open>next_addr\<close>
  is the address the next one gets.
\<close>

record artwork_obj =
  addr :: nat
  art :: Artwork

datatype overlay_cb = HideInfo | SafetyTimeout | RetryWake nat

text \<open>
  Where the asynchronous \<open>loadArtwork\<close> stands: waiting for the answer to attempt number
  \<open>attempt\<close>, sleeping in the 200 ms backoff after it, or returned.
\<close>

datatype loader = NotStarted | Awaiting nat | Sleeping nat | Finished

datatype response = Resolved "Artwork option" | Rejected string

record overlay = "overlay_cb event_loop" +
  displayedArtwork :: "artwork_obj option"
  nextArtwork :: "artwork_obj option"
  showInfo :: bool
  infoTimer :: "nat option"
  loading :: bool
  shown :: bool
  safetyTimeout :: nat
  loadArtwork_pc :: loader
  artwork_listener :: bool
  keydown_listener :: bool
  mousemove_listener :: bool
  mounted :: bool
  next_addr :: nat

definition overlay_init :: overlay where
  "overlay_init =
     \<lparr>now = 0, timers = [], next_timer = 1, invoked = [],
      displayedArtwork = None, nextArtwork = None, showInfo = True, infoTimer = None,
      loading = True, shown = False, safetyTimeout = 0, loadArtwork_pc = NotStarted,
      artwork_listener = False, keydown_listener = False, mousemove_listener = False,
      mounted = False, next_addr = 0\<rparr>"

definition new_object :: "Artwork \<Rightarrow> overlay \<Rightarrow> artwork_obj \<times> overlay" where
  "new_object a s = (\<lparr>addr = next_addr s, art = a\<rparr>, s\<lparr>next_addr := Suc (next_addr s)\<rparr>)"

subsection \<open>Handlers\<close>

definition onImageLoaded :: "overlay \<Rightarrow> overlay" where
  "onImageLoaded s =
     (let s1 = s\<lparr>displayedArtwork := nextArtwork s\<rparr>;
          s2 = s1\<lparr>nextArtwork := None\<rparr>;
          s3 = s2\<lparr>loading := False\<rparr>
      in if \<not> shown s3 then invoke ''overlay_ready'' (s3\<lparr>shown := True\<rparr>) else s3)"

text \<open>\<open>if (infoTimer)\<close> is false for \<open>null\<close> and for the number 0.\<close>

definition resetInfoTimer :: "overlay \<Rightarrow> overlay" where
  "resetInfoTimer s =
     (let s1 = s\<lparr>showInfo := True\<rparr>;
          s2 = (case infoTimer s1 of
                  Some h \<Rightarrow> if h \<noteq> 0 then clearTimeout h s1 else s1
                | None \<Rightarrow> s1);
          (h, s3) = setTimeout HideInfo 4000 s2
      in s3\<lparr>infoTimer := Some h\<rparr>)"

text \<open>The listener of \<open>artwork-changed\<close> (lines 37 to 40).\<close>

definition on_artwork_changed :: "Artwork \<Rightarrow> overlay \<Rightarrow> overlay" where
  "on_artwork_changed payload s =
     (let (obj, s1) = new_object payload s;
          s2 = s1\<lparr>nextArtwork := Some obj\<rparr>
      in resetInfoTimer s2)"

definition retries :: nat where
  "retries = 3"

text \<open>
  \<open>loadArtwork\<close> (lines 43 to 59), cut at its two \<open>await\<close>s.  \<open>loadArtwork_loop\<close> is the
  loop test followed by the call of \<open>get_current_artwork\<close>; \<open>loadArtwork_settled\<close> runs
  from the answer to the next \<open>await\<close> or to the return; \<open>loadArtwork_backoff\<close> is the
  tail of the loop body after the \<open>try\<close>.
\<close>

definition loadArtwork_loop :: "nat \<Rightarrow> overlay \<Rightarrow> overlay" where
  "loadArtwork_loop attempt s =
     (if attempt < retries
      then (invoke ''get_current_artwork'' s)\<lparr>loadArtwork_pc := Awaiting attempt\<rparr>
      else s\<lparr>loadArtwork_pc := Finished\<rparr>)"

definition loadArtwork_backoff :: "nat \<Rightarrow> overlay \<Rightarrow> overlay" where
  "loadArtwork_backoff attempt s =
     (if attempt < retries - 1
      then (let (h, s1) = setTimeout (RetryWake attempt) 200 s
            in s1\<lparr>loadArtwork_pc := Sleeping attempt\<rparr>)
      else loadArtwork_loop (Suc attempt) s)"

definition loadArtwork_settled :: "response \<Rightarrow> overlay \<Rightarrow> overlay" where
  "loadArtwork_settled r s =
     (case loadArtwork_pc s of
        Awaiting attempt \<Rightarrow>
          (case r of
             Resolved (Some a) \<Rightarrow>
               (let (obj, s1) = new_object a s;
                    s2 = s1\<lparr>nextArtwork := Some obj\<rparr>;
                    s3 = resetInfoTimer s2
                in s3\<lparr>loadArtwork_pc := Finished\<rparr>)
           | Resolved None \<Rightarrow> loadArtwork_backoff attempt s
           | Rejected e \<Rightarrow>
               loadArtwork_backoff attempt (s\<lparr>invoked := invoked s @ [Warn (attempt + 1)]\<rparr>))
      | _ \<Rightarrow> s)"

definition overlay_onKeyDown :: "string \<Rightarrow> overlay \<Rightarrow> overlay" where
  "overlay_onKeyDown k s =
     (if k = ''Escape'' then invoke ''dismiss_overlays'' s
      else if k = ''ArrowRight'' \<or> k = '' '' then invoke ''next_artwork'' (s\<lparr>loading := True\<rparr>)
      else if k = ''ArrowLeft'' then invoke ''prev_artwork'' (s\<lparr>loading := True\<rparr>)
      else s)"

definition onMouseMove :: "overlay \<Rightarrow> overlay" where
  "onMouseMove s = resetInfoTimer s"

text \<open>The timer callbacks: lines 31 to 33, lines 87 to 92, and the wake-up of line 56.\<close>

fun overlay_fire :: "overlay_cb \<Rightarrow> overlay \<Rightarrow> overlay" where
  "overlay_fire HideInfo s = s\<lparr>showInfo := False\<rparr>"
| "overlay_fire SafetyTimeout s =
     (if \<not> shown s then invoke ''overlay_ready'' (s\<lparr>shown := True\<rparr>) else s)"
| "overlay_fire (RetryWake attempt) s = loadArtwork_loop (Suc attempt) s"

lemma overlay_fire_timers [simp]: "timers (overlay_fire cb s) = timers s"
  by (cases cb) (simp_all add: invoke_def loadArtwork_loop_def)

function overlay_run_timers :: "nat \<Rightarrow> overlay \<Rightarrow> overlay" where
  "overlay_run_timers target s =
     (case earliest (timers s) of
        None \<Rightarrow> s\<lparr>now := max (now s) target\<rparr>
      | Some (h, due, cb) \<Rightarrow>
          if due \<le> target
          then overlay_run_timers target
                 (overlay_fire cb (s\<lparr>now := max (now s) due,
                                     timers := filter (\<lambda>t. fst t \<noteq> h) (timers s)\<rparr>))
          else s\<lparr>now := max (now s) target\<rparr>)"
  by pat_completeness auto

termination overlay_run_timers
proof (relation "measure (\<lambda>(target, s). length (timers s))", goal_cases)
  case 1
  show ?case by simp
next
  case (2 target s x2 h y due cb)
  then have "(h, due, cb) \<in> set (timers s)"
    using earliest_mem by fastforce
  then show ?case
    by (simp add: filter_removes_member)
qed

declare overlay_run_timers.simps [simp del]

text \<open>The body of the \<open>$effect\<close> (lines 36 to 92), run once when the component mounts.\<close>

definition overlay_mount :: overlay where
  "overlay_mount =
     (let s0 = overlay_init\<lparr>mounted := True\<rparr>;
          s1 = s0\<lparr>artwork_listener := True\<rparr>;
          s2 = loadArtwork_loop 0 s1;
          s3 = s2\<lparr>keydown_listener := True\<rparr>;
          s4 = s3\<lparr>mousemove_listener := True\<rparr>;
          (h, s5) = setTimeout SafetyTimeout 3000 s4
      in s5\<lparr>safetyTimeout := h\<rparr>)"

text \<open>
  The cleanup returned by the \<open>$effect\<close> (lines 94 to 100); unmounting also removes the
  rendered elements.
\<close>

definition teardown :: "overlay \<Rightarrow> overlay" where
  "teardown s =
     (let s1 = s\<lparr>artwork_listener := False\<rparr>;
          s2 = s1\<lparr>keydown_listener := False\<rparr>;
          s3 = s2\<lparr>mousemove_listener := False\<rparr>;
          s4 = (case infoTimer s3 of
                  Some h \<Rightarrow> if h \<noteq> 0 then clearTimeout h s3 else s3
                | None \<Rightarrow> s3);
          s5 = clearTimeout (safetyTimeout s4) s4
      in s5\<lparr>mounted := False\<rparr>)"

text \<open>
  The template (lines 105 to 116): the element of the next image exists exactly when
  \<open>nextArtwork && nextArtwork !== displayedArtwork\<close>, and \<open>onImageLoaded\<close> is its
  \<open>onload\<close> handler.
\<close>

definition next_image_rendered :: "overlay \<Rightarrow> bool" where
  "next_image_rendered s =
     (mounted s \<and>
      (case nextArtwork s of
         None \<Rightarrow> False
       | Some n \<Rightarrow> (case displayedArtwork s of None \<Rightarrow> True | Some d \<Rightarrow> addr n \<noteq> addr d)))"

text \<open>
  What reaches the component.  \<open>ImageLoad src\<close> is the \<open>load\<close> event of the next-image
  element, \<open>src\<close> being the image whose decoding has finished; the handler takes no
  argument and never looks at it.
\<close>

datatype overlay_event =
    ArtworkChanged Artwork
  | GetCurrentSettled response
  | ImageLoad string
  | KeyDown string
  | MouseMove
  | Elapse nat
  | Teardown

fun overlay_step :: "overlay_event \<Rightarrow> overlay \<Rightarrow> overlay" where
  "overlay_step (ArtworkChanged payload) s =
     (if artwork_listener s then on_artwork_changed payload s else s)"
| "overlay_step (GetCurrentSettled r) s = loadArtwork_settled r s"
| "overlay_step (ImageLoad src) s = (if next_image_rendered s then onImageLoaded s else s)"
| "overlay_step (KeyDown k) s = (if keydown_listener s then overlay_onKeyDown k s else s)"
| "overlay_step MouseMove s = (if mousemove_listener s then onMouseMove s else s)"
| "overlay_step (Elapse d) s = overlay_run_timers (now s + d) s"
| "overlay_step Teardown s = teardown s"

fun overlay_run :: "overlay_event list \<Rightarrow> overlay \<Rightarrow> overlay" where
  "overlay_run [] s = s"
| "overlay_run (e # es) s = overlay_run es (overlay_step e s)"

text \<open>Two artworks for concrete runs.\<close>

definition artwork_A :: Artwork where
  "artwork_A =
     \<lparr>id_str = ''nga-46'', title = ''The Japanese Footbridge'', artist = ''Claude Monet'',
      date = ''1899'', medium = ''oil on canvas'', source = ''NGA'',
      image_base64 = ''data:image/jpeg;base64,AAAA''\<rparr>"

definition artwork_B :: Artwork where
  "artwork_B =
     \<lparr>id_str = ''nga-1138'', title = ''Ginevra de Benci'', artist = ''Leonardo da Vinci'',
      date = ''1474'', medium = ''oil on panel'', source = ''NGA'',
      image_base64 = ''data:image/jpeg;base64,BBBB''\<rparr>"

subsection \<open>Invariants of the controller\<close>

fun is_retry :: "overlay_cb \<Rightarrow> bool" where
  "is_retry (RetryWake k) = True"
| "is_retry cb = False"

definition attempts :: "overlay \<Rightarrow> nat" where
  "attempts s = count_list (invoked s) (Invoke ''get_current_artwork'' None)"

definition reveals :: "overlay \<Rightarrow> nat" where
  "reveals s = count_list (invoked s) (Invoke ''overlay_ready'' None)"

text \<open>Timer handles are positive, never reused, and below the next fresh one.\<close>

definition handles_ok :: "overlay \<Rightarrow> bool" where
  "handles_ok s =
     (0 < next_timer s \<and> distinct (map fst (timers s))
      \<and> (\<forall>t \<in> set (timers s). 0 < fst t \<and> fst t < next_timer s)
      \<and> safetyTimeout s < next_timer s
      \<and> (\<forall>h. infoTimer s = Some h \<longrightarrow> h < next_timer s))"

text \<open>
  An armed timer hides the info bar exactly when its handle is the one kept in
  \<open>infoTimer\<close>, and is the safety timeout exactly when its handle is \<open>safetyTimeout\<close>.
\<close>

definition owners_ok :: "overlay \<Rightarrow> bool" where
  "owners_ok s =
     ((\<forall>t \<in> set (timers s). (snd (snd t) = HideInfo) = (infoTimer s = Some (fst t)))
      \<and> (\<forall>t \<in> set (timers s). (snd (snd t) = SafetyTimeout) = (fst t = safetyTimeout s)))"

definition reveal_ok :: "overlay \<Rightarrow> bool" where
  "reveal_ok s = (reveals s = (if shown s then 1 else 0))"

definition addrs_ok :: "overlay \<Rightarrow> bool" where
  "addrs_ok s =
     ((\<forall>obj. displayedArtwork s = Some obj \<longrightarrow> addr obj < next_addr s)
      \<and> (\<forall>obj. nextArtwork s = Some obj \<longrightarrow> addr obj < next_addr s))"

text \<open>
  The loader and its backoff timer: a retry timer is armed exactly while the loader
  sleeps, and the number of calls of \<open>get_current_artwork\<close> made so far is the number of
  the current attempt.
\<close>

definition loader_ok :: "overlay \<Rightarrow> bool" where
  "loader_ok s =
     (let rs = map (\<lambda>t. snd (snd t)) (filter (\<lambda>t. is_retry (snd (snd t))) (timers s)) in
      case loadArtwork_pc s of
        NotStarted \<Rightarrow> False
      | Awaiting k \<Rightarrow> rs = [] \<and> attempts s = Suc k \<and> k < retries
      | Sleeping k \<Rightarrow> rs = [RetryWake k] \<and> attempts s = Suc k \<and> Suc k < retries
      | Finished \<Rightarrow> rs = [] \<and> attempts s \<le> retries)"

text \<open>
  The safety timeout is due at 3000 ms, and stays armed while the component is mounted
  and the overlay has not been revealed.
\<close>

definition safety_armed :: "overlay \<Rightarrow> bool" where
  "safety_armed s =
     ((mounted s \<and> \<not> shown s \<longrightarrow> (safetyTimeout s, 3000, SafetyTimeout) \<in> set (timers s))
      \<and> (\<forall>t \<in> set (timers s). snd (snd t) = SafetyTimeout \<longrightarrow> fst (snd t) = 3000))"

definition overlay_inv :: "overlay \<Rightarrow> bool" where
  "overlay_inv s =
     (handles_ok s \<and> owners_ok s \<and> reveal_ok s \<and> addrs_ok s \<and> loader_ok s
      \<and> safety_armed s)"

text \<open>Between two events every armed timer is due in the future.\<close>

definition armed_ahead :: "overlay \<Rightarrow> bool" where
  "armed_ahead s = (\<forall>t \<in> set (timers s). now s < fst (snd t))"

subsection \<open>Notions used in the statements\<close>

text \<open>The component is mounted and its three listeners are registered.\<close>

definition attached :: "overlay \<Rightarrow> bool" where
  "attached s = (mounted s \<and> artwork_listener s \<and> keydown_listener s \<and> mousemove_listener s)"

text \<open>
  What the template shows (lines 104 to 136): the displayed image, the next image while
  it decodes, the info bar of the displayed artwork with its visibility, and the
  spinner.  There is no element for an error.
\<close>

record view =
  image :: "string option"
  next_image :: "string option"
  info_bar :: "(string \<times> string \<times> string \<times> bool) option"
  spinner :: bool

definition render :: "overlay \<Rightarrow> view" where
  "render s =
     \<lparr>image = map_option (\<lambda>d. image_base64 (art d)) (displayedArtwork s),
      next_image = (if next_image_rendered s
                    then map_option (\<lambda>n. image_base64 (art n)) (nextArtwork s) else None),
      info_bar = map_option
                   (\<lambda>d. (title (art d),
                         artist (art d) @ (if date (art d) \<noteq> '''' then '', '' @ date (art d) else ''''),
                         source (art d),
                         showInfo s))
                   (displayedArtwork s),
      spinner = loading s\<rparr>"

text \<open>An answer of \<open>get_current_artwork\<close> that carries an artwork.\<close>

fun succeeded :: "response \<Rightarrow> bool" where
  "succeeded (Resolved (Some a)) = True"
| "succeeded r = False"

text \<open>The events that hand an artwork to the controller.\<close>

fun brings_artwork :: "overlay_event \<Rightarrow> bool" where
  "brings_artwork (ArtworkChanged payload) = True"
| "brings_artwork (GetCurrentSettled r) = succeeded r"
| "brings_artwork ev = False"

text \<open>The state \<open>Empty\<close> of the specification, still loading.\<close>

definition empty_loading :: "overlay \<Rightarrow> bool" where
  "empty_loading s = (displayedArtwork s = None \<and> nextArtwork s = None \<and> loading s)"

text \<open>
  An event is quiet when it neither completes a decode, nor unmounts the component, nor
  answers the initial load with an artwork.
\<close>

fun quiet :: "overlay_event \<Rightarrow> bool" where
  "quiet (ImageLoad src) = False"
| "quiet Teardown = False"
| "quiet (GetCurrentSettled r) = (\<not> succeeded r)"
| "quiet ev = True"

text \<open>The payload of the last artwork-change notification among the events, if any.\<close>

fun last_notified :: "overlay_event list \<Rightarrow> Artwork option" where
  "last_notified [] = None"
| "last_notified (ev # evs) =
     (case last_notified evs of
        Some p \<Rightarrow> Some p
      | None \<Rightarrow> (case ev of ArtworkChanged p \<Rightarrow> Some p | _ \<Rightarrow> None))"

section \<open>Properties of the accelerator normalizer\<close>

lemma dispatch_skip: "accelerator upper e = None \<Longrightarrow> dispatch upper ls e s = s"
  by (induction ls) (simp_all add: onKeyDown_def)

lemma dispatch_listeners:
  "accelerator upper e = Some acc \<Longrightarrow>
   listeners (dispatch upper ls e s) = filter (\<lambda>l. l \<notin> set ls) (listeners s)"
proof (induction ls arbitrary: s)
  case Nil
  then show ?case by simp
next
  case (Cons l ls)
  let ?s' = "if l \<in> set (listeners s) then onKeyDown upper l e s else s"
  have "listeners ?s' = filter (\<lambda>x. x \<noteq> l) (listeners s)"
  proof (cases "l \<in> set (listeners s)")
    case True
    then show ?thesis using Cons.prems by (simp add: onKeyDown_def Let_def)
  next
    case False
    then have "filter (\<lambda>x. x \<noteq> l) (listeners s) = listeners s"
      by (induction "listeners s") (auto simp: filter_id_conv)
    with False show ?thesis by simp
  qed
  moreover have "listeners (dispatch upper (l # ls) e s) = filter (\<lambda>x. x \<notin> set ls) (listeners ?s')"
    using Cons.IH [OF Cons.prems, of ?s'] by simp
  ultimately show ?case
    by (simp add: conj_commute)
qed

lemma dispatch_recording:
  "accelerator upper e = Some acc \<Longrightarrow>
   recording (dispatch upper ls e s) = (recording s \<and> set ls \<inter> set (listeners s) = {})"
proof (induction ls arbitrary: s)
  case Nil
  then show ?case by simp
next
  case (Cons l ls)
  show ?case
  proof (cases "l \<in> set (listeners s)")
    case True
    then show ?thesis
      using Cons.IH [OF Cons.prems, of "onKeyDown upper l e s"] Cons.prems
      by (simp add: onKeyDown_def Let_def)
  next
    case False
    then show ?thesis
      using Cons.IH [OF Cons.prems, of s] by simp
  qed
qed

lemma keydown_listeners: "accelerator upper e = Some acc \<Longrightarrow> listeners (keydown upper e s) = []"
  by (simp add: keydown_def dispatch_listeners)

lemma dispatch_hotkey:
  "accelerator upper e = Some acc \<Longrightarrow>
   hotkey (dispatch upper ls e s)
     = (if set ls \<inter> set (listeners s) = {} then hotkey s else acc)"
proof (induction ls arbitrary: s)
  case Nil
  then show ?case by simp
next
  case (Cons l ls)
  show ?case
  proof (cases "l \<in> set (listeners s)")
    case True
    then show ?thesis
      using Cons.IH [OF Cons.prems, of "onKeyDown upper l e s"] Cons.prems
      by (simp add: onKeyDown_def Let_def)
  next
    case False
    then show ?thesis
      using Cons.IH [OF Cons.prems, of s] by simp
  qed
qed

text \<open>
  Claim C4.  For every key press and whatever \<open>toUpperCase\<close> computes, \<open>accelerator\<close>
  (the normalizer inside \<open>onKeyDown\<close>) agrees with the specification's normalizer: skip
  on the bare modifier keys Control, Shift, Alt and Meta, otherwise \<open>CmdOrCtrl+\<close> when
  ctrl or meta is held, then \<open>Shift+\<close>, then \<open>Alt+\<close>, then the terminal key, where a blank
  becomes \<open>Space\<close>, a key of length one becomes its \<open>toUpperCase\<close> and any other key is
  passed through.  On skip the handler changes nothing: recording, hotkey and the
  attached listeners stay as they are.  Otherwise the handler stores the result in
  \<open>hotkey\<close>, ends recording and detaches itself, and a key press reaching at least one
  attached listener leaves the result in \<open>hotkey\<close>.  Cmd+S gives \<open>CmdOrCtrl+S\<close>, as
  \<open>toUpperCase\<close> of s and of S is S, and Shift+Alt+ArrowUp gives \<open>Shift+Alt+ArrowUp\<close>.
\<close>

theorem accelerator_normalizer:
  "accelerator upper e = spec_normalize upper e
   \<and> (key e \<in> {js ''Control'', js ''Shift'', js ''Alt'', js ''Meta''} \<longrightarrow>
        accelerator upper e = None \<and> onKeyDown upper self e s = s \<and> keydown upper e s = s)
   \<and> (key e \<notin> {js ''Control'', js ''Shift'', js ''Alt'', js ''Meta''} \<longrightarrow>
        accelerator upper e =
          Some ((if ctrlKey e \<or> metaKey e then js ''CmdOrCtrl+'' else [])
                @ (if shiftKey e then js ''Shift+'' else [])
                @ (if altKey e then js ''Alt+'' else [])
                @ (if key e = js '' '' then js ''Space''
                   else if length (key e) = 1 then upper (key e)
                   else key e))
        \<and> Some (hotkey (onKeyDown upper self e s)) = accelerator upper e
        \<and> \<not> recording (onKeyDown upper self e s)
        \<and> listeners (onKeyDown upper self e s) = filter (\<lambda>l. l \<noteq> self) (listeners s)
        \<and> (listeners s \<noteq> [] \<longrightarrow>
              Some (hotkey (keydown upper e s)) = accelerator upper e
              \<and> \<not> recording (keydown upper e s)
              \<and> listeners (keydown upper e s) = []))
   \<and> (upper (js ''s'') = js ''S'' \<longrightarrow>
        accelerator upper \<lparr>key = js ''s'', ctrlKey = False, metaKey = True,
                           shiftKey = False, altKey = False\<rparr> = Some (js ''CmdOrCtrl+S''))
   \<and> (upper (js ''S'') = js ''S'' \<longrightarrow>
        accelerator upper \<lparr>key = js ''S'', ctrlKey = False, metaKey = True,
                           shiftKey = False, altKey = False\<rparr> = Some (js ''CmdOrCtrl+S''))
   \<and> accelerator upper \<lparr>key = js ''ArrowUp'', ctrlKey = False, metaKey = False,
                         shiftKey = True, altKey = True\<rparr> = Some (js ''Shift+Alt+ArrowUp'')"
proof -
  let ?mods = "{js ''Control'', js ''Shift'', js ''Alt'', js ''Meta''}"
  have refines: "accelerator upper e = spec_normalize upper e"
    by (simp add: accelerator_def spec_normalize_def map_terminal_key_def js_def Let_def)
  have skip: "key e \<in> ?mods \<Longrightarrow> accelerator upper e = None"
    by (simp add: accelerator_def)
  have unchanged: "accelerator upper e = None \<Longrightarrow>
      onKeyDown upper self e s = s \<and> keydown upper e s = s"
    by (simp add: onKeyDown_def keydown_def dispatch_skip)
  have build: "key e \<notin> ?mods \<Longrightarrow>
      accelerator upper e =
          Some ((if ctrlKey e \<or> metaKey e then js ''CmdOrCtrl+'' else [])
                @ (if shiftKey e then js ''Shift+'' else [])
                @ (if altKey e then js ''Alt+'' else [])
                @ (if key e = js '' '' then js ''Space''
                   else if length (key e) = 1 then upper (key e)
                   else key e))"
    by (simp add: accelerator_def js_def Let_def)
  have stored: "key e \<notin> ?mods \<Longrightarrow>
      Some (hotkey (onKeyDown upper self e s)) = accelerator upper e
      \<and> \<not> recording (onKeyDown upper self e s)
      \<and> listeners (onKeyDown upper self e s) = filter (\<lambda>l. l \<noteq> self) (listeners s)"
  proof -
    assume "key e \<notin> ?mods"
    then obtain acc where acc: "accelerator upper e = Some acc"
      using build by blast
    then show ?thesis by (simp add: onKeyDown_def Let_def)
  qed
  have reached: "key e \<notin> ?mods \<Longrightarrow> listeners s \<noteq> [] \<Longrightarrow>
      Some (hotkey (keydown upper e s)) = accelerator upper e
      \<and> \<not> recording (keydown upper e s)
      \<and> listeners (keydown upper e s) = []"
  proof -
    assume "key e \<notin> ?mods" and ne: "listeners s \<noteq> []"
    then obtain acc where acc: "accelerator upper e = Some acc"
      using build by blast
    have "set (listeners s) \<noteq> {}" using ne by simp
    then show ?thesis
      using dispatch_hotkey [OF acc, of "listeners s" s]
            dispatch_recording [OF acc, of "listeners s" s]
            dispatch_listeners [OF acc, of "listeners s" s] acc
      by (simp add: keydown_def)
  qed
  have ex1: "upper (js ''s'') = js ''S'' \<Longrightarrow>
      accelerator upper \<lparr>key = js ''s'', ctrlKey = False, metaKey = True,
                         shiftKey = False, altKey = False\<rparr> = Some (js ''CmdOrCtrl+S'')"
    by (simp add: accelerator_def js_def)
  have ex2: "upper (js ''S'') = js ''S'' \<Longrightarrow>
      accelerator upper \<lparr>key = js ''S'', ctrlKey = False, metaKey = True,
                         shiftKey = False, altKey = False\<rparr> = Some (js ''CmdOrCtrl+S'')"
    by (simp add: accelerator_def js_def)
  have ex3: "accelerator upper \<lparr>key = js ''ArrowUp'', ctrlKey = False, metaKey = False,
                    shiftKey = True, altKey = True\<rparr> = Some (js ''Shift+Alt+ArrowUp'')"
    by (simp add: accelerator_def js_def)
  from refines skip unchanged build stored reached ex1 ex2 ex3 show ?thesis by blast
qed

theorem accelerator_normalizer_witness:
  "accelerator ascii_upper \<lparr>key = js ''Control'', ctrlKey = True, metaKey = False,
                             shiftKey = False, altKey = False\<rparr> = None
   \<and> keydown ascii_upper \<lparr>key = js ''Control'', ctrlKey = True, metaKey = False,
                            shiftKey = False, altKey = False\<rparr> (startRecording panel_mount)
       = startRecording panel_mount
   \<and> accelerator ascii_upper \<lparr>key = js ''a'', ctrlKey = True, metaKey = False,
                               shiftKey = True, altKey = True\<rparr>
       = Some (js ''CmdOrCtrl+Shift+Alt+A'')
   \<and> hotkey (keydown ascii_upper \<lparr>key = js ''a'', ctrlKey = True, metaKey = False,
                                    shiftKey = True, altKey = True\<rparr>
               (startRecording panel_mount))
       = js ''CmdOrCtrl+Shift+Alt+A''
   \<and> ascii_upper (js ''s'') = js ''S''
   \<and> accelerator ascii_upper \<lparr>key = js ''s'', ctrlKey = False, metaKey = True,
                               shiftKey = False, altKey = False\<rparr>
       = Some (js ''CmdOrCtrl+S'')
   \<and> accelerator ascii_upper \<lparr>key = js '' '', ctrlKey = False, metaKey = False,
                               shiftKey = False, altKey = True\<rparr> = Some (js ''Alt+Space'')"
proof -
  let ?mods = "{js ''Control'', js ''Shift'', js ''Alt'', js ''Meta''}"
  let ?e1 = "\<lparr>key = js ''Control'', ctrlKey = True, metaKey = False, shiftKey = False,
              altKey = False\<rparr>"
  let ?e2 = "\<lparr>key = js ''a'', ctrlKey = True, metaKey = False, shiftKey = True,
              altKey = True\<rparr>"
  let ?e3 = "\<lparr>key = js ''s'', ctrlKey = False, metaKey = True, shiftKey = False,
              altKey = False\<rparr>"
  let ?e4 = "\<lparr>key = js '' '', ctrlKey = False, metaKey = False, shiftKey = False,
              altKey = True\<rparr>"
  have u: "ascii_upper (js ''s'') = js ''S''" "ascii_upper (js ''a'') = js ''A''"
    by (simp_all add: ascii_upper_def js_def)
  have l: "listeners (startRecording panel_mount) \<noteq> []"
    by (simp add: startRecording_def Let_def)
  have m1: "key ?e1 \<in> ?mods" by simp
  have m2: "key ?e2 \<notin> ?mods" and m4: "key ?e4 \<notin> ?mods"
    by (simp_all add: js_def)
  have c1: "accelerator ascii_upper ?e1 = None
            \<and> keydown ascii_upper ?e1 (startRecording panel_mount) = startRecording panel_mount"
    using accelerator_normalizer [of ascii_upper ?e1 0 "startRecording panel_mount"] m1
    by blast
  have c2: "accelerator ascii_upper ?e2 =
          Some ((if ctrlKey ?e2 \<or> metaKey ?e2 then js ''CmdOrCtrl+'' else [])
                @ (if shiftKey ?e2 then js ''Shift+'' else [])
                @ (if altKey ?e2 then js ''Alt+'' else [])
                @ (if key ?e2 = js '' '' then js ''Space''
                   else if length (key ?e2) = 1 then ascii_upper (key ?e2)
                   else key ?e2))
        \<and> Some (hotkey (keydown ascii_upper ?e2 (startRecording panel_mount)))
            = accelerator ascii_upper ?e2"
    using accelerator_normalizer [of ascii_upper ?e2 0 "startRecording panel_mount"] m2 l
    by blast
  have c3: "accelerator ascii_upper ?e3 = Some (js ''CmdOrCtrl+S'')"
    using accelerator_normalizer [of ascii_upper ?e3 0 panel_mount] u(1)
    by blast
  have c4: "accelerator ascii_upper ?e4 =
          Some ((if ctrlKey ?e4 \<or> metaKey ?e4 then js ''CmdOrCtrl+'' else [])
                @ (if shiftKey ?e4 then js ''Shift+'' else [])
                @ (if altKey ?e4 then js ''Alt+'' else [])
                @ (if key ?e4 = js '' '' then js ''Space''
                   else if length (key ?e4) = 1 then ascii_upper (key ?e4)
                   else key ?e4))"
    using accelerator_normalizer [of ascii_upper ?e4 0 panel_mount] m4
    by blast
  have v2: "accelerator ascii_upper ?e2 = Some (js ''CmdOrCtrl+Shift+Alt+A'')"
    using c2 by (simp add: js_def ascii_upper_def)
  have "Some (hotkey (keydown ascii_upper ?e2 (startRecording panel_mount)))
          = Some (js ''CmdOrCtrl+Shift+Alt+A'')"
    using c2 v2 by metis
  then have h2: "hotkey (keydown ascii_upper ?e2 (startRecording panel_mount))
                   = js ''CmdOrCtrl+Shift+Alt+A''"
    by (simp only: option.inject)
  have v4: "accelerator ascii_upper ?e4 = Some (js ''Alt+Space'')"
    using c4 by (simp add: js_def)
  from c1 v2 h2 u(1) c3 v4 show ?thesis by blast
qed

section \<open>Properties of the hotkey recorder\<close>

lemma panel_fire_frame [simp]:
  "listeners (panel_fire cb s) = listeners s" "recording (panel_fire cb s) = recording s"
  by (cases cb; simp)+

lemma panel_run_timers_rule:
  assumes "P s"
    and "\<And>s h due cb. P s \<Longrightarrow> earliest (timers s) = Some (h, due, cb) \<Longrightarrow> due \<le> target \<Longrightarrow>
           P (panel_fire cb (s\<lparr>now := max (now s) due,
                               timers := filter (\<lambda>t. fst t \<noteq> h) (timers s)\<rparr>))"
    and "\<And>s. P s \<Longrightarrow> P (s\<lparr>now := max (now s) target\<rparr>)"
  shows "P (panel_run_timers target s)"
  using assms
proof (induction target s rule: panel_run_timers.induct)
  case (1 target s)
  note inv = "1.prems"(1) and fire = "1.prems"(2) and fin = "1.prems"(3)
  show ?case
  proof (cases "earliest (timers s)")
    case None
    then have "panel_run_timers target s = s\<lparr>now := max (now s) target\<rparr>"
      by (simp add: panel_run_timers.simps)
    then show ?thesis using fin [OF inv] by simp
  next
    case (Some t)
    obtain h due cb where t: "t = (h, due, cb)" by (cases t)
    show ?thesis
    proof (cases "due \<le> target")
      case True
      let ?s' = "panel_fire cb (s\<lparr>now := max (now s) due,
                                  timers := filter (\<lambda>t. fst t \<noteq> h) (timers s)\<rparr>)"
      have "P ?s'"
        using fire [OF inv _ True] Some t by simp
      then have "P (panel_run_timers target ?s')"
        using "1.IH" [OF Some t [symmetric] refl True _ fire fin] by blast
      then show ?thesis
        using Some t True by (simp add: panel_run_timers.simps)
    next
      case False
      then have "panel_run_timers target s = s\<lparr>now := max (now s) target\<rparr>"
        using Some t by (simp add: panel_run_timers.simps)
      then show ?thesis using fin [OF inv] by simp
    qed
  qed
qed

lemma panel_run_timers_frame:
  "listeners (panel_run_timers target s) = listeners s
   \<and> recording (panel_run_timers target s) = recording s"
  by (rule panel_run_timers_rule
        [where P = "\<lambda>s'. listeners s' = listeners s \<and> recording s' = recording s"])
     simp_all

lemma panel_step_recording:
  "recording s = (listeners s \<noteq> []) \<Longrightarrow>
   recording (panel_step upper ev s) = (listeners (panel_step upper ev s) \<noteq> [])"
proof (cases ev)
  case (KeyPress e)
  assume inv: "recording s = (listeners s \<noteq> [])"
  show ?thesis
  proof (cases "accelerator upper e")
    case None
    then show ?thesis using KeyPress inv by (simp add: keydown_def dispatch_skip)
  next
    case (Some acc)
    have "listeners (keydown upper e s) = []"
      by (rule keydown_listeners [OF Some])
    moreover have "recording (keydown upper e s) = (recording s \<and> listeners s = [])"
      using dispatch_recording [OF Some, of "listeners s" s] by (simp add: keydown_def)
    ultimately show ?thesis
      using KeyPress inv by simp
  qed
qed (simp_all add: got_hotkey_def startRecording_def saveHotkey_def saveHotkey_settled_def
       setTimeout_def panel_run_timers_frame Let_def split: sum.splits)

lemma panel_run_recording:
  "recording s = (listeners s \<noteq> []) \<Longrightarrow>
   recording (panel_run upper evs s) = (listeners (panel_run upper evs s) \<noteq> [])"
  by (induction evs arbitrary: s) (simp_all add: panel_step_recording)

text \<open>
  Claim C3, as the code has it.  Every call of \<open>startRecording\<close> attaches one more key
  listener, whatever is attached already; a qualifying key press runs every attached
  listener, each detaches itself, and none is left; a bare modifier detaches none.  So in
  every state reached from mount, listeners are attached exactly while \<open>recording\<close> is
  true, one for each call of \<open>startRecording\<close> since the last qualifying key press.
\<close>

theorem listeners_per_startRecording:
  "listeners (startRecording s) = listeners s @ [next_closure s]
   \<and> length (listeners (startRecording s)) = Suc (length (listeners s))
   \<and> (accelerator upper e \<noteq> None \<longrightarrow> listeners (keydown upper e s) = [])
   \<and> (accelerator upper e = None \<longrightarrow> listeners (keydown upper e s) = listeners s)
   \<and> recording (panel_run upper evs panel_mount) = (listeners (panel_run upper evs panel_mount) \<noteq> [])"
proof -
  have "recording panel_mount = (listeners panel_mount \<noteq> [])"
    by (simp add: panel_mount_def panel_init_def invoke_def)
  then have "recording (panel_run upper evs panel_mount) = (listeners (panel_run upper evs panel_mount) \<noteq> [])"
    by (rule panel_run_recording)
  moreover have "accelerator upper e \<noteq> None \<longrightarrow> listeners (keydown upper e s) = []"
    using keydown_listeners by auto
  moreover have "accelerator upper e = None \<longrightarrow> listeners (keydown upper e s) = listeners s"
    by (simp add: keydown_def dispatch_skip)
  ultimately show ?thesis
    by (simp add: startRecording_def Let_def)
qed

theorem listeners_per_startRecording_witness:
  "accelerator ascii_upper \<lparr>key = js ''k'', ctrlKey = True, metaKey = False,
                             shiftKey = False, altKey = False\<rparr> \<noteq> None
   \<and> listeners (keydown ascii_upper \<lparr>key = js ''k'', ctrlKey = True, metaKey = False,
                                       shiftKey = False, altKey = False\<rparr>
                  (startRecording (startRecording panel_mount))) = []
   \<and> accelerator ascii_upper \<lparr>key = js ''Shift'', ctrlKey = False, metaKey = False,
                               shiftKey = True, altKey = False\<rparr> = None
   \<and> listeners (keydown ascii_upper \<lparr>key = js ''Shift'', ctrlKey = False, metaKey = False,
                                       shiftKey = True, altKey = False\<rparr>
                  (startRecording (startRecording panel_mount)))
       = [0, 1]"
  using listeners_per_startRecording
          [of "startRecording (startRecording panel_mount)" ascii_upper
              "\<lparr>key = js ''k'', ctrlKey = True, metaKey = False, shiftKey = False,
                altKey = False\<rparr>" "[]"]
        listeners_per_startRecording
          [of "startRecording (startRecording panel_mount)" ascii_upper
              "\<lparr>key = js ''Shift'', ctrlKey = False, metaKey = False, shiftKey = True,
                altKey = False\<rparr>" "[]"]
  by (simp add: accelerator_def js_def startRecording_def panel_mount_def panel_init_def
        invoke_def Let_def)

theorem two_listeners_counterexample:
  "listeners (panel_run ascii_upper [ClickRecord, ClickRecord] panel_mount) = [0, 1]
   \<and> \<not> length (listeners (panel_run ascii_upper [ClickRecord, ClickRecord] panel_mount)) \<le> 1"
  by (simp add: startRecording_def panel_mount_def panel_init_def invoke_def Let_def)

subsection \<open>Saving\<close>

lemma earliest_Nil: "(earliest ts = None) = (ts = [])"
  by (cases ts) (auto split: option.splits)

lemma earliest_least:
  "earliest ts = Some t \<Longrightarrow> u \<in> set ts \<Longrightarrow> fst (snd t) \<le> fst (snd u)"
  by (induction ts arbitrary: t) (fastforce split: option.splits if_splits simp: earliest_Nil)+

lemma panel_run_timers_idle:
  assumes "\<forall>t \<in> set (timers s). target < fst (snd t)"
  shows "panel_run_timers target s = s\<lparr>now := max (now s) target\<rparr>"
proof (cases "earliest (timers s)")
  case None
  then show ?thesis by (simp add: panel_run_timers.simps)
next
  case (Some t)
  then have "target < fst (snd t)"
    using assms earliest_mem by blast
  then show ?thesis
    using Some by (cases t) (simp add: panel_run_timers.simps)
qed

lemma panel_run_timers_keeps_cleared:
  "\<not> saved s \<Longrightarrow> \<not> saved (panel_run_timers target s)"
  by (rule panel_run_timers_rule [where P = "\<lambda>s'. \<not> saved s'"]) (simp_all, case_tac cb, simp)

lemma panel_run_timers_clears:
  assumes "u \<in> set (timers s)" and "fst (snd u) \<le> target"
  shows "\<not> saved (panel_run_timers target s)"
proof -
  from assms(1) obtain t where t: "earliest (timers s) = Some t"
    by (cases "earliest (timers s)") (auto simp: earliest_Nil)
  obtain h due cb where hdc: "t = (h, due, cb)" by (cases t)
  have "due \<le> target"
    using earliest_least [OF t assms(1)] assms(2) hdc by simp
  then have "panel_run_timers target s =
      panel_run_timers target
        (panel_fire cb (s\<lparr>now := max (now s) due,
                          timers := filter (\<lambda>t. fst t \<noteq> h) (timers s)\<rparr>))"
    using t hdc by (simp add: panel_run_timers.simps)
  moreover have "\<not> saved (panel_fire cb (s\<lparr>now := max (now s) due,
                          timers := filter (\<lambda>t. fst t \<noteq> h) (timers s)\<rparr>))"
    by (cases cb) simp
  ultimately show ?thesis
    by (simp add: panel_run_timers_keeps_cleared)
qed

text \<open>
  Claim C8.  \<open>saveHotkey\<close> sends the working hotkey and changes nothing the user sees.
  When \<open>set_hotkey\<close> is rejected, the message is stored in \<open>error\<close>, \<open>saved\<close> keeps the
  value it had (it is not activated, and no timer is armed), and \<open>hotkey\<close> is retained.
  When it is accepted, \<open>saved\<close> is set, \<open>error\<close> is emptied and a timer due in 2000 ms is
  armed whose callback clears \<open>saved\<close>: \<open>saved\<close> is false once 2000 ms have passed, and is
  still true before that unless an older timer falls due.
\<close>

theorem saveHotkey_outcomes:
  assumes "0 < save_in_flight s"
  shows "error (saveHotkey_settled (Inl msg) s) = msg
     \<and> saved (saveHotkey_settled (Inl msg) s) = saved s
     \<and> hotkey (saveHotkey_settled (Inl msg) s) = hotkey s
     \<and> timers (saveHotkey_settled (Inl msg) s) = timers s
     \<and> saved (saveHotkey_settled (Inr ()) s)
     \<and> error (saveHotkey_settled (Inr ()) s) = ''''
     \<and> hotkey (saveHotkey_settled (Inr ()) s) = hotkey s
     \<and> timers (saveHotkey_settled (Inr ()) s)
         = timers s @ [(next_timer s, now s + 2000, ClearSaved)]
     \<and> \<not> saved (panel_step upper (PanelElapse 2000) (saveHotkey_settled (Inr ()) s))
     \<and> (\<forall>d < 2000. (\<forall>t \<in> set (timers s). now s + d < fst (snd t)) \<longrightarrow>
            saved (panel_step upper (PanelElapse d) (saveHotkey_settled (Inr ()) s)))
     \<and> invoked (saveHotkey s) = invoked s @ [Invoke ''set_hotkey'' (Some (hotkey s))]
     \<and> saved (saveHotkey s) = saved s \<and> error (saveHotkey s) = error s
     \<and> hotkey (saveHotkey s) = hotkey s \<and> 0 < save_in_flight (saveHotkey s)"
proof -
  let ?ok = "saveHotkey_settled (Inr ()) s"
  have tm: "timers ?ok = timers s @ [(next_timer s, now s + 2000, ClearSaved)]"
    and nw: "now ?ok = now s" and sv: "saved ?ok"
    using assms by (simp_all add: saveHotkey_settled_def setTimeout_def Let_def)
  have cleared: "\<not> saved (panel_step upper (PanelElapse 2000) ?ok)"
    using panel_run_timers_clears [of "(next_timer s, now s + 2000, ClearSaved)" ?ok "now s + 2000"]
    by (simp add: tm nw)
  have kept: "\<forall>d < 2000. (\<forall>t \<in> set (timers s). now s + d < fst (snd t)) \<longrightarrow>
            saved (panel_step upper (PanelElapse d) ?ok)"
  proof (intro allI impI)
    fix d :: nat
    assume d: "d < 2000" and later: "\<forall>t \<in> set (timers s). now s + d < fst (snd t)"
    have "\<forall>t \<in> set (timers ?ok). now ?ok + d < fst (snd t)"
      using d later by (auto simp: tm nw)
    then have "panel_run_timers (now ?ok + d) ?ok = ?ok\<lparr>now := max (now ?ok) (now ?ok + d)\<rparr>"
      by (rule panel_run_timers_idle)
    then show "saved (panel_step upper (PanelElapse d) ?ok)"
      using sv by simp
  qed
  have rest: "error (saveHotkey_settled (Inl msg) s) = msg
     \<and> saved (saveHotkey_settled (Inl msg) s) = saved s
     \<and> hotkey (saveHotkey_settled (Inl msg) s) = hotkey s
     \<and> timers (saveHotkey_settled (Inl msg) s) = timers s
     \<and> error ?ok = '''' \<and> hotkey ?ok = hotkey s"
    using assms by (simp add: saveHotkey_settled_def setTimeout_def Let_def)
  have call: "invoked (saveHotkey s) = invoked s @ [Invoke ''set_hotkey'' (Some (hotkey s))]
     \<and> saved (saveHotkey s) = saved s \<and> error (saveHotkey s) = error s
     \<and> hotkey (saveHotkey s) = hotkey s \<and> 0 < save_in_flight (saveHotkey s)"
    by (simp add: saveHotkey_def)
  from rest sv tm cleared kept call show ?thesis by blast
qed

theorem saveHotkey_outcomes_witness:
  "0 < save_in_flight (saveHotkey (got_hotkey (js ''CmdOrCtrl+S'') panel_mount))
   \<and> error (saveHotkey_settled (Inl ''denied'')
              (saveHotkey (got_hotkey (js ''CmdOrCtrl+S'') panel_mount))) = ''denied''
   \<and> \<not> saved (saveHotkey_settled (Inl ''denied'')
              (saveHotkey (got_hotkey (js ''CmdOrCtrl+S'') panel_mount)))
   \<and> hotkey (saveHotkey_settled (Inl ''denied'')
              (saveHotkey (got_hotkey (js ''CmdOrCtrl+S'') panel_mount))) = js ''CmdOrCtrl+S''
   \<and> saved (saveHotkey_settled (Inr ())
              (saveHotkey (got_hotkey (js ''CmdOrCtrl+S'') panel_mount)))
   \<and> \<not> saved (panel_step ascii_upper (PanelElapse 2000)
               (saveHotkey_settled (Inr ())
                  (saveHotkey (got_hotkey (js ''CmdOrCtrl+S'') panel_mount))))
   \<and> saved (panel_step ascii_upper (PanelElapse 1999)
               (saveHotkey_settled (Inr ())
                  (saveHotkey (got_hotkey (js ''CmdOrCtrl+S'') panel_mount))))"
proof -
  let ?s = "saveHotkey (got_hotkey (js ''CmdOrCtrl+S'') panel_mount)"
  have pre: "0 < save_in_flight ?s"
    by (simp add: saveHotkey_def)
  have tm: "timers ?s = []" and sv: "\<not> saved ?s" and hk: "hotkey ?s = js ''CmdOrCtrl+S''"
    by (simp_all add: saveHotkey_def got_hotkey_def panel_mount_def panel_init_def invoke_def)
  from saveHotkey_outcomes [OF pre, of "''denied''"] tm sv hk pre
  show ?thesis by simp
qed

section \<open>The controller's invariants hold in every reachable state\<close>

lemma distinct_fst_eq:
  "distinct (map fst ts) \<Longrightarrow> x \<in> set ts \<Longrightarrow> y \<in> set ts \<Longrightarrow> fst x = fst y \<Longrightarrow> x = y"
  by (induction ts) (auto simp: rev_image_eqI)

lemma mount_inv: "overlay_inv overlay_mount \<and> armed_ahead overlay_mount"
  by (simp add: overlay_inv_def handles_ok_def owners_ok_def reveal_ok_def addrs_ok_def loader_ok_def
      safety_armed_def armed_ahead_def overlay_mount_def overlay_init_def loadArtwork_loop_def
      retries_def invoke_def setTimeout_def attempts_def reveals_def Let_def)

lemmas inv_defs = handles_ok_def owners_ok_def reveal_ok_def addrs_ok_def loader_ok_def
      safety_armed_def attempts_def reveals_def

lemma reset_handles: "handles_ok s \<Longrightarrow> handles_ok (resetInfoTimer s)"
  by (auto simp: handles_ok_def resetInfoTimer_def setTimeout_def clearTimeout_def Let_def distinct_map_filter split: option.splits)

lemma reset_owners: "handles_ok s \<Longrightarrow> owners_ok s \<Longrightarrow> owners_ok (resetInfoTimer s)"
  by (auto simp: handles_ok_def owners_ok_def resetInfoTimer_def setTimeout_def clearTimeout_def Let_def split: option.splits)

lemma reset_reveal: "reveal_ok s \<Longrightarrow> reveal_ok (resetInfoTimer s)"
  by (auto simp: reveal_ok_def reveals_def resetInfoTimer_def setTimeout_def clearTimeout_def Let_def split: option.splits)

lemma reset_addrs: "addrs_ok s \<Longrightarrow> addrs_ok (resetInfoTimer s)"
  by (auto simp: addrs_ok_def resetInfoTimer_def setTimeout_def clearTimeout_def Let_def split: option.splits)

lemma reset_retry_timers:
  "owners_ok s \<Longrightarrow> filter (\<lambda>t. is_retry (snd (snd t))) (timers (resetInfoTimer s)) = filter (\<lambda>t. is_retry (snd (snd t))) (timers s)"
  by (auto simp: owners_ok_def resetInfoTimer_def setTimeout_def clearTimeout_def Let_def split: option.splits intro!: filter_cong)

lemma reset_frame:
  "invoked (resetInfoTimer s) = invoked s" "loadArtwork_pc (resetInfoTimer s) = loadArtwork_pc s"
  "shown (resetInfoTimer s) = shown s" "mounted (resetInfoTimer s) = mounted s"
  "safetyTimeout (resetInfoTimer s) = safetyTimeout s"
  "displayedArtwork (resetInfoTimer s) = displayedArtwork s"
  "nextArtwork (resetInfoTimer s) = nextArtwork s"
  "loading (resetInfoTimer s) = loading s" "now (resetInfoTimer s) = now s"
  "next_addr (resetInfoTimer s) = next_addr s"
  by (auto simp: resetInfoTimer_def setTimeout_def clearTimeout_def Let_def split: option.splits)

lemma reset_loader: "owners_ok s \<Longrightarrow> loader_ok s \<Longrightarrow> loader_ok (resetInfoTimer s)"
  by (simp add: loader_ok_def attempts_def reset_retry_timers reset_frame Let_def split: loader.splits)

lemma reset_safety: "owners_ok s \<Longrightarrow> safety_armed s \<Longrightarrow> safety_armed (resetInfoTimer s)"
  by (auto simp: owners_ok_def safety_armed_def resetInfoTimer_def setTimeout_def clearTimeout_def Let_def split: option.splits)

lemma reset_inv: "overlay_inv s \<Longrightarrow> overlay_inv (resetInfoTimer s)"
  by (simp add: overlay_inv_def reset_handles reset_owners reset_reveal reset_addrs reset_loader reset_safety)

lemma reset_ahead: "armed_ahead s \<Longrightarrow> armed_ahead (resetInfoTimer s)"
  by (auto simp: armed_ahead_def resetInfoTimer_def setTimeout_def clearTimeout_def Let_def split: option.splits)


lemma changed_inv_update:
  "overlay_inv s \<Longrightarrow>
   overlay_inv (s\<lparr>next_addr := Suc (next_addr s),
                  nextArtwork := Some \<lparr>addr = next_addr s, art = a\<rparr>\<rparr>)"
  by (auto simp: overlay_inv_def inv_defs Let_def split: loader.splits)

lemma changed_inv: "overlay_inv s \<Longrightarrow> overlay_inv (on_artwork_changed a s)"
proof -
  assume inv: "overlay_inv s"
  let ?s2 = "s\<lparr>next_addr := Suc (next_addr s), nextArtwork := Some \<lparr>addr = next_addr s, art = a\<rparr>\<rparr>"
  have "overlay_inv ?s2"
    using inv by (rule changed_inv_update)
  then have "overlay_inv (resetInfoTimer ?s2)" by (rule reset_inv)
  then show ?thesis by (simp add: on_artwork_changed_def new_object_def Let_def)
qed

lemma changed_ahead: "armed_ahead s \<Longrightarrow> armed_ahead (on_artwork_changed a s)"
proof -
  assume "armed_ahead s"
  then have "armed_ahead (s\<lparr>next_addr := Suc (next_addr s), nextArtwork := Some \<lparr>addr = next_addr s, art = a\<rparr>\<rparr>)"
    by (simp add: armed_ahead_def)
  then show ?thesis
    by (simp add: on_artwork_changed_def new_object_def Let_def reset_ahead)
qed

lemma loaded_inv: "overlay_inv s \<Longrightarrow> overlay_inv (onImageLoaded s)"
  by (auto simp: overlay_inv_def inv_defs onImageLoaded_def invoke_def Let_def split: loader.splits)

lemma loaded_ahead: "armed_ahead s \<Longrightarrow> armed_ahead (onImageLoaded s)"
  by (simp add: armed_ahead_def onImageLoaded_def invoke_def Let_def)

lemma key_inv: "overlay_inv s \<Longrightarrow> overlay_inv (overlay_onKeyDown k s)"
  by (auto simp: overlay_inv_def inv_defs overlay_onKeyDown_def invoke_def Let_def split: loader.splits)

lemma key_ahead: "armed_ahead s \<Longrightarrow> armed_ahead (overlay_onKeyDown k s)"
  by (simp add: armed_ahead_def overlay_onKeyDown_def invoke_def)

lemma backoff_inv:
  assumes "overlay_inv s" and "loadArtwork_pc s = Awaiting k"
  shows "overlay_inv (loadArtwork_backoff k s)"
  using assms
  by (auto simp: overlay_inv_def inv_defs loadArtwork_backoff_def loadArtwork_loop_def
        setTimeout_def invoke_def retries_def Let_def)

lemma backoff_ahead: "armed_ahead s \<Longrightarrow> armed_ahead (loadArtwork_backoff k s)"
  by (auto simp: armed_ahead_def loadArtwork_backoff_def loadArtwork_loop_def
        setTimeout_def invoke_def Let_def)

lemma warn_inv: "overlay_inv s \<Longrightarrow> overlay_inv (s\<lparr>invoked := invoked s @ [Warn n]\<rparr>)"
  by (auto simp: overlay_inv_def inv_defs Let_def split: loader.splits)

lemma settled_inv: "overlay_inv s \<Longrightarrow> overlay_inv (loadArtwork_settled r s)"
proof (cases "loadArtwork_pc s")
  case (Awaiting k)
  assume inv: "overlay_inv s"
  show ?thesis
  proof (cases r)
    case (Resolved ao)
    show ?thesis
    proof (cases ao)
      case None
      then show ?thesis
        using inv Awaiting Resolved by (simp add: loadArtwork_settled_def backoff_inv)
    next
      case (Some a)
      let ?s2 = "s\<lparr>next_addr := Suc (next_addr s), nextArtwork := Some \<lparr>addr = next_addr s, art = a\<rparr>\<rparr>"
      have "overlay_inv ?s2"
        using inv by (auto simp: overlay_inv_def inv_defs Let_def split: loader.splits)
      then have r: "overlay_inv (resetInfoTimer ?s2)" by (rule reset_inv)
      have "overlay_inv ((resetInfoTimer ?s2)\<lparr>loadArtwork_pc := Finished\<rparr>)"
        using r Awaiting
        by (auto simp: overlay_inv_def inv_defs reset_frame Let_def retries_def split: loader.splits)
      then show ?thesis
        using Awaiting Resolved Some
        by (simp add: loadArtwork_settled_def new_object_def Let_def)
    qed
  next
    case (Rejected e)
    have "overlay_inv (s\<lparr>invoked := invoked s @ [Warn (k + 1)]\<rparr>)"
      using inv by (rule warn_inv)
    then show ?thesis
      using Awaiting Rejected backoff_inv [of "s\<lparr>invoked := invoked s @ [Warn (k + 1)]\<rparr>" k]
      by (simp add: loadArtwork_settled_def)
  qed
qed (simp_all add: loadArtwork_settled_def)

lemma settled_ahead: "armed_ahead s \<Longrightarrow> armed_ahead (loadArtwork_settled r s)"
proof -
  assume a: "armed_ahead s"
  have w: "\<And>n. armed_ahead (s\<lparr>invoked := invoked s @ [Warn n]\<rparr>)"
    using a by (simp add: armed_ahead_def)
  have n: "\<And>x. armed_ahead (s\<lparr>next_addr := Suc (next_addr s), nextArtwork := Some x\<rparr>)"
    using a by (simp add: armed_ahead_def)
  have f: "\<And>s'. armed_ahead s' \<Longrightarrow> armed_ahead (s'\<lparr>loadArtwork_pc := Finished\<rparr>)"
    by (simp add: armed_ahead_def)
  show ?thesis
    using a w n
    by (auto simp: loadArtwork_settled_def new_object_def Let_def backoff_ahead reset_ahead f
          split: loader.splits response.splits option.splits)
qed

lemma teardown_inv: "overlay_inv s \<Longrightarrow> overlay_inv (teardown s)"
proof -
  assume inv: "overlay_inv s"
  have h: "handles_ok (teardown s)"
    using inv by (auto simp: overlay_inv_def handles_ok_def teardown_def clearTimeout_def Let_def
        distinct_map_filter split: option.splits)
  have o: "owners_ok (teardown s)"
    using inv by (auto simp: overlay_inv_def handles_ok_def owners_ok_def teardown_def clearTimeout_def Let_def
        split: option.splits)
  have frame: "invoked (teardown s) = invoked s" "loadArtwork_pc (teardown s) = loadArtwork_pc s"
    "shown (teardown s) = shown s" "\<not> mounted (teardown s)"
    "displayedArtwork (teardown s) = displayedArtwork s" "nextArtwork (teardown s) = nextArtwork s"
    "next_addr (teardown s) = next_addr s"
    by (auto simp: teardown_def clearTimeout_def Let_def split: option.splits)
  have rt: "filter (\<lambda>t. is_retry (snd (snd t))) (timers (teardown s)) = filter (\<lambda>t. is_retry (snd (snd t))) (timers s)"
    using inv
    by (auto simp: overlay_inv_def owners_ok_def teardown_def clearTimeout_def Let_def
        split: option.splits intro!: filter_cong)
  have l: "loader_ok (teardown s)"
    using inv by (simp add: overlay_inv_def loader_ok_def attempts_def rt frame Let_def split: loader.splits)
  have sub: "set (timers (teardown s)) \<subseteq> set (timers s)"
    by (auto simp: teardown_def clearTimeout_def Let_def split: option.splits)
  have sa: "safety_armed (teardown s)"
    using inv sub by (auto simp: overlay_inv_def safety_armed_def frame)
  show ?thesis
    using inv h o l sa by (simp add: overlay_inv_def reveal_ok_def reveals_def addrs_ok_def frame)
qed

lemma teardown_ahead: "armed_ahead s \<Longrightarrow> armed_ahead (teardown s)"
  by (auto simp: armed_ahead_def teardown_def clearTimeout_def Let_def split: option.splits)


lemma singleton_member: "map f xs = [y] \<Longrightarrow> x \<in> set xs \<Longrightarrow> xs = [x]"
  by (cases xs) auto

lemma overlay_inv_cong:
  assumes "timers s' = timers s" "next_timer s' = next_timer s" "infoTimer s' = infoTimer s"
    "safetyTimeout s' = safetyTimeout s" "invoked s' = invoked s" "shown s' = shown s"
    "mounted s' = mounted s" "displayedArtwork s' = displayedArtwork s"
    "nextArtwork s' = nextArtwork s" "next_addr s' = next_addr s"
    "loadArtwork_pc s' = loadArtwork_pc s"
  shows "overlay_inv s' = overlay_inv s"
  by (simp add: overlay_inv_def inv_defs assms cong: loader.case_cong)

lemma fire_inv:
  assumes inv: "overlay_inv s" and e: "earliest (timers s) = Some (h, due, cb)"
  shows "overlay_inv (overlay_fire cb (s\<lparr>now := t, timers := filter (\<lambda>u. fst u \<noteq> h) (timers s)\<rparr>))"
proof -
  let ?s' = "s\<lparr>now := t, timers := filter (\<lambda>u. fst u \<noteq> h) (timers s)\<rparr>"
  let ?R = "\<lambda>u::nat \<times> nat \<times> overlay_cb. is_retry (snd (snd u))"
  have mem: "(h, due, cb) \<in> set (timers s)"
    using e by (rule earliest_mem)
  have dist: "distinct (map fst (timers s))"
    using inv by (simp add: overlay_inv_def handles_ok_def)
  have others: "\<And>u. u \<in> set (timers s) \<Longrightarrow> fst u = h \<Longrightarrow> u = (h, due, cb)"
    using distinct_fst_eq [OF dist _ mem] by simp
  have h': "handles_ok ?s'"
    using inv by (auto simp: overlay_inv_def handles_ok_def distinct_map_filter)
  have o': "owners_ok ?s'"
    using inv by (auto simp: overlay_inv_def owners_ok_def)
  have v': "reveal_ok ?s'" and a': "addrs_ok ?s'"
    using inv by (simp_all add: overlay_inv_def reveal_ok_def reveals_def addrs_ok_def)
  have due': "\<forall>u \<in> set (timers ?s'). snd (snd u) = SafetyTimeout \<longrightarrow> fst (snd u) = 3000"
    using inv by (simp add: overlay_inv_def safety_armed_def)
  have own: "(cb = SafetyTimeout) = (h = safetyTimeout s)"
    using inv mem by (fastforce simp: overlay_inv_def owners_ok_def)
  have keep: "cb \<noteq> SafetyTimeout \<Longrightarrow> mounted s \<Longrightarrow> \<not> shown s \<Longrightarrow>
      (safetyTimeout s, 3000, SafetyTimeout) \<in> set (timers ?s')"
    using inv own by (simp add: overlay_inv_def safety_armed_def)
  have sa: "cb \<noteq> SafetyTimeout \<Longrightarrow> safety_armed ?s'"
    using keep due' by (simp add: safety_armed_def)
  have comm: "filter ?R (timers ?s') = filter (\<lambda>u. fst u \<noteq> h) (filter ?R (timers s))"
    by (simp add: conj_commute)
  show ?thesis
  proof (cases "is_retry cb")
    case False
    have "\<forall>u \<in> set (filter ?R (timers s)). fst u \<noteq> h"
      using others False by auto
    then have "filter (\<lambda>u. fst u \<noteq> h) (filter ?R (timers s)) = filter ?R (timers s)"
      using filter_id_conv by blast
    then have l': "loader_ok ?s'"
      using inv comm by (simp add: overlay_inv_def loader_ok_def attempts_def Let_def split: loader.splits)
    show ?thesis
    proof (cases cb)
      case HideInfo
      then have "overlay_inv ?s'"
        using h' o' v' a' l' sa by (simp add: overlay_inv_def)
      moreover have "overlay_inv (?s'\<lparr>showInfo := False\<rparr>) = overlay_inv ?s'"
        by (rule overlay_inv_cong) simp_all
      ultimately show ?thesis using HideInfo by simp
    next
      case SafetyTimeout
      show ?thesis
      proof (cases "shown s")
        case True
        then have "safety_armed ?s'"
          using due' by (simp add: safety_armed_def)
        then have "overlay_inv ?s'"
          using h' o' v' a' l' by (simp add: overlay_inv_def)
        then show ?thesis using SafetyTimeout True by simp
      next
        case notyet: False
        let ?x = "?s'\<lparr>shown := True, invoked := invoked s @ [Invoke ''overlay_ready'' None]\<rparr>"
        have "handles_ok ?x" using h' by (simp add: handles_ok_def)
        moreover have "owners_ok ?x" using o' by (simp add: owners_ok_def)
        moreover have "reveal_ok ?x" using v' notyet by (simp add: reveal_ok_def reveals_def)
        moreover have "addrs_ok ?x" using a' by (simp add: addrs_ok_def)
        moreover have "loader_ok ?x"
          using l' by (simp add: loader_ok_def attempts_def Let_def split: loader.splits)
        moreover have "safety_armed ?x" using due' by (simp add: safety_armed_def)
        ultimately have "overlay_inv ?x" by (simp add: overlay_inv_def)
        then show ?thesis using SafetyTimeout notyet by (simp add: invoke_def)
      qed
    next
      case (RetryWake k)
      then show ?thesis using False by simp
    qed
  next
    case True
    then obtain k where cb: "cb = RetryWake k" by (cases cb) auto
    have in_rs: "(h, due, cb) \<in> set (filter ?R (timers s))"
      using mem True by simp
    have lo: "loader_ok s" using inv by (simp add: overlay_inv_def)
    have "filter ?R (timers s) \<noteq> []"
      using in_rs by (metis empty_iff empty_set)
    then have ne: "map (\<lambda>u. snd (snd u)) (filter ?R (timers s)) \<noteq> []"
      by simp
    from lo ne obtain k' where pc: "loadArtwork_pc s = Sleeping k'"
      and rs: "map (\<lambda>u. snd (snd u)) (filter ?R (timers s)) = [RetryWake k']"
      and at: "attempts s = Suc k'" and lt: "Suc k' < retries"
      by (auto simp: loader_ok_def Let_def split: loader.splits)
    have single: "filter ?R (timers s) = [(h, due, cb)]"
      using singleton_member [OF rs in_rs] .
    then have kk: "k' = k" using rs cb by simp
    have none: "filter ?R (timers ?s') = []"
      using comm single by simp
    let ?x = "?s'\<lparr>invoked := invoked s @ [Invoke ''get_current_artwork'' None],
                 loadArtwork_pc := Awaiting (Suc k)\<rparr>"
    have "handles_ok ?x" using h' by (simp add: handles_ok_def)
    moreover have "owners_ok ?x" using o' by (simp add: owners_ok_def)
    moreover have "reveal_ok ?x" using v' by (simp add: reveal_ok_def reveals_def)
    moreover have "addrs_ok ?x" using a' by (simp add: addrs_ok_def)
    moreover have "loader_ok ?x"
      using none at lt kk by (simp add: loader_ok_def attempts_def Let_def)
    moreover have "safety_armed ?x" using sa cb by (simp add: safety_armed_def)
    ultimately have "overlay_inv ?x" by (simp add: overlay_inv_def)
    then show ?thesis
      using cb lt kk by (simp add: loadArtwork_loop_def invoke_def)
  qed
qed

lemma overlay_run_timers_rule:
  assumes "P s"
    and "\<And>s h due cb. P s \<Longrightarrow> earliest (timers s) = Some (h, due, cb) \<Longrightarrow> due \<le> target \<Longrightarrow>
           P (overlay_fire cb (s\<lparr>now := max (now s) due,
                                 timers := filter (\<lambda>t. fst t \<noteq> h) (timers s)\<rparr>))"
    and "\<And>s. P s \<Longrightarrow> \<forall>t \<in> set (timers s). target < fst (snd t) \<Longrightarrow>
           Q (s\<lparr>now := max (now s) target\<rparr>)"
  shows "Q (overlay_run_timers target s)"
  using assms
proof (induction target s rule: overlay_run_timers.induct)
  case (1 target s)
  note inv = "1.prems"(1) and fire = "1.prems"(2) and fin = "1.prems"(3)
  show ?case
  proof (cases "earliest (timers s)")
    case None
    then have "overlay_run_timers target s = s\<lparr>now := max (now s) target\<rparr>"
      by (simp add: overlay_run_timers.simps)
    moreover have "\<forall>t \<in> set (timers s). target < fst (snd t)"
      using None by (simp add: earliest_Nil)
    ultimately show ?thesis using fin [OF inv] by simp
  next
    case (Some t)
    obtain h due cb where t: "t = (h, due, cb)" by (cases t)
    show ?thesis
    proof (cases "due \<le> target")
      case True
      let ?s' = "overlay_fire cb (s\<lparr>now := max (now s) due,
                                    timers := filter (\<lambda>t. fst t \<noteq> h) (timers s)\<rparr>)"
      have "P ?s'"
        using fire [OF inv _ True] Some t by simp
      then have "Q (overlay_run_timers target ?s')"
        using "1.IH" [OF Some t [symmetric] refl True _ fire fin] by blast
      then show ?thesis
        using Some t True by (simp add: overlay_run_timers.simps)
    next
      case False
      then have "overlay_run_timers target s = s\<lparr>now := max (now s) target\<rparr>"
        using Some t by (simp add: overlay_run_timers.simps)
      moreover have "\<forall>u \<in> set (timers s). target < fst (snd u)"
        using earliest_least [OF Some] False t by fastforce
      ultimately show ?thesis using fin [OF inv] by simp
    qed
  qed
qed

lemma now_inv: "overlay_inv s \<Longrightarrow> overlay_inv (s\<lparr>now := t\<rparr>)"
  by (auto simp: overlay_inv_def inv_defs Let_def split: loader.splits)

lemma elapse_inv:
  assumes "overlay_inv s"
  shows "overlay_inv (overlay_run_timers (now s + d) s)
       \<and> armed_ahead (overlay_run_timers (now s + d) s)
       \<and> now (overlay_run_timers (now s + d) s) = now s + d"
proof (rule overlay_run_timers_rule
         [where P = "\<lambda>s'. overlay_inv s' \<and> now s' \<le> now s + d"])
  show "overlay_inv s \<and> now s \<le> now s + d" using assms by simp
next
  fix s' h due cb
  assume p: "overlay_inv s' \<and> now s' \<le> now s + d" and e: "earliest (timers s') = Some (h, due, cb)"
    and le: "due \<le> now s + d"
  have "overlay_inv (overlay_fire cb (s'\<lparr>now := max (now s') due,
                 timers := filter (\<lambda>t. fst t \<noteq> h) (timers s')\<rparr>))"
    using p e by (simp add: fire_inv)
  moreover have "now (overlay_fire cb (s'\<lparr>now := max (now s') due,
                 timers := filter (\<lambda>t. fst t \<noteq> h) (timers s')\<rparr>)) \<le> now s + d"
    using p le by (cases cb) (simp_all add: invoke_def loadArtwork_loop_def)
  ultimately show "overlay_inv (overlay_fire cb (s'\<lparr>now := max (now s') due,
                 timers := filter (\<lambda>t. fst t \<noteq> h) (timers s')\<rparr>))
       \<and> now (overlay_fire cb (s'\<lparr>now := max (now s') due,
                 timers := filter (\<lambda>t. fst t \<noteq> h) (timers s')\<rparr>)) \<le> now s + d"
    by simp
next
  fix s'
  assume "overlay_inv s' \<and> now s' \<le> now s + d" and "\<forall>t \<in> set (timers s'). now s + d < fst (snd t)"
  then show "overlay_inv (s'\<lparr>now := max (now s') (now s + d)\<rparr>)
       \<and> armed_ahead (s'\<lparr>now := max (now s') (now s + d)\<rparr>)
       \<and> now (s'\<lparr>now := max (now s') (now s + d)\<rparr>) = now s + d"
    by (simp add: now_inv armed_ahead_def max_def)
qed

lemma step_inv:
  "overlay_inv s \<and> armed_ahead s \<Longrightarrow> overlay_inv (overlay_step ev s) \<and> armed_ahead (overlay_step ev s)"
  by (cases ev)
     (simp_all add: changed_inv changed_ahead settled_inv settled_ahead loaded_inv loaded_ahead
        key_inv key_ahead onMouseMove_def reset_inv reset_ahead elapse_inv teardown_inv teardown_ahead)

lemma run_inv:
  "overlay_inv s \<and> armed_ahead s \<Longrightarrow> overlay_inv (overlay_run evs s) \<and> armed_ahead (overlay_run evs s)"
  by (induction evs arbitrary: s) (simp_all add: step_inv del: overlay_step.simps)

lemma reachable_inv: "overlay_inv (overlay_run evs overlay_mount) \<and> armed_ahead (overlay_run evs overlay_mount)"
  by (rule run_inv [OF mount_inv])

section \<open>Revealing the overlay\<close>

lemma fire_shown: "shown (overlay_fire cb s) = (shown s \<or> cb = SafetyTimeout)"
  by (cases cb) (simp_all add: invoke_def loadArtwork_loop_def)

lemma fire_attached:
  "mounted (overlay_fire cb s) = mounted s"
  "artwork_listener (overlay_fire cb s) = artwork_listener s"
  "keydown_listener (overlay_fire cb s) = keydown_listener s"
  "mousemove_listener (overlay_fire cb s) = mousemove_listener s"
  by (cases cb; simp add: invoke_def loadArtwork_loop_def)+

lemma elapse_attached: "attached (overlay_run_timers target s) = attached s"
  by (rule overlay_run_timers_rule [where P = "\<lambda>s'. attached s' = attached s"])
     (simp_all add: attached_def fire_attached)

lemma settled_attached: "attached (loadArtwork_settled r s) = attached s"
  by (simp add: attached_def loadArtwork_settled_def loadArtwork_backoff_def
        loadArtwork_loop_def new_object_def resetInfoTimer_def setTimeout_def clearTimeout_def
        invoke_def Let_def split: loader.splits response.splits option.splits)

lemma step_attached: "Teardown \<noteq> ev \<Longrightarrow> attached (overlay_step ev s) = attached s"
  by (cases ev)
     (simp_all add: elapse_attached settled_attached,
      simp_all add: attached_def on_artwork_changed_def new_object_def resetInfoTimer_def
        setTimeout_def clearTimeout_def onImageLoaded_def overlay_onKeyDown_def onMouseMove_def
        invoke_def Let_def split: option.splits)

lemma run_attached: "Teardown \<notin> set evs \<Longrightarrow> attached (overlay_run evs s) = attached s"
  by (induction evs arbitrary: s) (simp_all add: step_attached del: overlay_step.simps)

lemma mount_attached: "attached overlay_mount"
  by (simp add: attached_def overlay_mount_def overlay_init_def loadArtwork_loop_def
        retries_def invoke_def setTimeout_def Let_def)

lemma elapse_shown_mono: "shown s \<Longrightarrow> shown (overlay_run_timers target s)"
  by (rule overlay_run_timers_rule [where P = shown]) (simp_all add: fire_shown)

lemma step_shown_mono: "shown s \<Longrightarrow> shown (overlay_step ev s)"
  by (cases ev)
     (simp_all add: elapse_shown_mono,
      simp_all add: on_artwork_changed_def new_object_def resetInfoTimer_def
        setTimeout_def clearTimeout_def onImageLoaded_def overlay_onKeyDown_def onMouseMove_def
        loadArtwork_settled_def loadArtwork_backoff_def loadArtwork_loop_def teardown_def
        invoke_def Let_def split: option.splits loader.splits response.splits)

lemma run_shown_mono: "shown s \<Longrightarrow> shown (overlay_run evs s)"
  by (induction evs arbitrary: s) (simp_all add: step_shown_mono del: overlay_step.simps)

lemma elapse_shown_cause:
  assumes "overlay_inv s" and "\<not> shown s" and "shown (overlay_run_timers target s)"
  shows "3000 \<le> target"
proof -
  have "shown (overlay_run_timers target s) \<longrightarrow> 3000 \<le> target"
  proof (rule overlay_run_timers_rule
           [where P = "\<lambda>s'. overlay_inv s' \<and> (shown s' \<longrightarrow> 3000 \<le> target)"])
    show "overlay_inv s \<and> (shown s \<longrightarrow> 3000 \<le> target)"
      using assms by simp
  next
    fix s' h due cb
    assume p: "overlay_inv s' \<and> (shown s' \<longrightarrow> 3000 \<le> target)"
      and e: "earliest (timers s') = Some (h, due, cb)" and le: "due \<le> target"
    have "cb = SafetyTimeout \<Longrightarrow> due = 3000"
      using p earliest_mem [OF e] by (fastforce simp: overlay_inv_def safety_armed_def)
    then show "overlay_inv (overlay_fire cb (s'\<lparr>now := max (now s') due,
                   timers := filter (\<lambda>t. fst t \<noteq> h) (timers s')\<rparr>))
         \<and> (shown (overlay_fire cb (s'\<lparr>now := max (now s') due,
                   timers := filter (\<lambda>t. fst t \<noteq> h) (timers s')\<rparr>)) \<longrightarrow> 3000 \<le> target)"
      using p e le by (auto simp: fire_inv fire_shown)
  qed simp
  then show ?thesis using assms by simp
qed

lemma step_shown_cause:
  assumes "overlay_inv s" and "\<not> shown s" and "shown (overlay_step ev s)"
  shows "(\<exists>src. ev = ImageLoad src) \<or> (\<exists>d. ev = Elapse d \<and> 3000 \<le> now s + d)"
proof (cases ev)
  case (Elapse d)
  then show ?thesis using assms elapse_shown_cause [of s "now s + d"] by simp
next
  case (ImageLoad src)
  then show ?thesis by simp
qed (use assms in \<open>simp_all add: on_artwork_changed_def new_object_def resetInfoTimer_def
        setTimeout_def clearTimeout_def overlay_onKeyDown_def onMouseMove_def
        loadArtwork_settled_def loadArtwork_backoff_def loadArtwork_loop_def teardown_def
        invoke_def Let_def split: option.splits loader.splits response.splits if_splits\<close>)

lemma safety_deadline:
  assumes "overlay_inv s" and "armed_ahead s" and "mounted s" and "3000 \<le> now s"
  shows "shown s"
proof (rule ccontr)
  assume "\<not> shown s"
  then have "(safetyTimeout s, 3000, SafetyTimeout) \<in> set (timers s)"
    using assms by (simp add: overlay_inv_def safety_armed_def)
  then have "now s < 3000"
    using assms(2) by (fastforce simp: armed_ahead_def)
  then show False using assms(4) by simp
qed

text \<open>
  Claim C2.  In every state the controller reaches, \<open>overlay_ready\<close> has been sent once
  if \<open>shown\<close> is set and not at all otherwise, and \<open>shown\<close>, once set, stays set whatever
  follows: the reveal is sent at most once and the latch never goes back.  A
  decode-complete event sets the latch; while the component is mounted the latch is set
  by the time the clock reaches 3000 ms; and a step sets the latch only if it is a
  decode-complete event or the passing of time up to the 3000 ms of the safety timeout.
\<close>

theorem reveal_exactly_once:
  "reveals (overlay_run evs overlay_mount)
     = (if shown (overlay_run evs overlay_mount) then 1 else 0)
   \<and> (shown (overlay_run evs overlay_mount) \<longrightarrow>
        shown (overlay_run evs' (overlay_run evs overlay_mount)))
   \<and> (next_image_rendered (overlay_run evs overlay_mount) \<longrightarrow>
        shown (overlay_step (ImageLoad src) (overlay_run evs overlay_mount)))
   \<and> (Teardown \<notin> set evs \<and> 3000 \<le> now (overlay_run evs overlay_mount) \<longrightarrow>
        shown (overlay_run evs overlay_mount))
   \<and> (\<not> shown (overlay_run evs overlay_mount)
        \<and> shown (overlay_step ev (overlay_run evs overlay_mount)) \<longrightarrow>
        (\<exists>src. ev = ImageLoad src)
        \<or> (\<exists>d. ev = Elapse d \<and> 3000 \<le> now (overlay_run evs overlay_mount) + d))"
proof -
  let ?s = "overlay_run evs overlay_mount"
  have inv: "overlay_inv ?s" and ahead: "armed_ahead ?s"
    using reachable_inv by simp_all
  have once: "reveals ?s = (if shown ?s then 1 else 0)"
    using inv by (simp add: overlay_inv_def reveal_ok_def)
  have latch: "shown ?s \<longrightarrow> shown (overlay_run evs' ?s)"
    by (simp add: run_shown_mono)
  have decode: "next_image_rendered ?s \<longrightarrow> shown (overlay_step (ImageLoad src) ?s)"
    by (simp add: onImageLoaded_def invoke_def Let_def)
  have safety: "Teardown \<notin> set evs \<and> 3000 \<le> now ?s \<longrightarrow> shown ?s"
  proof
    assume a: "Teardown \<notin> set evs \<and> 3000 \<le> now ?s"
    then have "attached ?s"
      using run_attached [of evs overlay_mount] mount_attached by simp
    then have "mounted ?s" by (simp add: attached_def)
    then show "shown ?s"
      using safety_deadline [OF inv ahead] a by simp
  qed
  have cause: "\<not> shown ?s \<and> shown (overlay_step ev ?s) \<longrightarrow>
        (\<exists>src. ev = ImageLoad src) \<or> (\<exists>d. ev = Elapse d \<and> 3000 \<le> now ?s + d)"
    using step_shown_cause [OF inv] by blast
  from once latch decode safety cause show ?thesis by blast
qed

theorem reveal_exactly_once_witness:
  "Teardown \<notin> set [Elapse 3000]
   \<and> 3000 \<le> now (overlay_run [Elapse 3000] overlay_mount)
   \<and> shown (overlay_run [Elapse 3000] overlay_mount)
   \<and> reveals (overlay_run [Elapse 3000] overlay_mount) = 1
   \<and> shown (overlay_run [ImageLoad ''x'', Teardown] (overlay_run [Elapse 3000] overlay_mount))
   \<and> next_image_rendered (overlay_run [ArtworkChanged artwork_A] overlay_mount)
   \<and> shown (overlay_step (ImageLoad (image_base64 artwork_A))
              (overlay_run [ArtworkChanged artwork_A] overlay_mount))
   \<and> reveals (overlay_run [] overlay_mount) = 0"
proof -
  have n: "now (overlay_run [Elapse 3000] overlay_mount) = 3000"
    by code_simp
  have r: "next_image_rendered (overlay_run [ArtworkChanged artwork_A] overlay_mount)"
    by code_simp
  have z: "\<not> shown (overlay_run [] overlay_mount)"
    by code_simp
  from reveal_exactly_once [of "[Elapse 3000]" "[ImageLoad ''x'', Teardown]"]
       reveal_exactly_once [of "[ArtworkChanged artwork_A]" "[]" "image_base64 artwork_A"]
       reveal_exactly_once [of "[]"]
       n r z
  show ?thesis by simp
qed

section \<open>The info-bar countdown\<close>

lemma reset_timers:
  assumes "overlay_inv s"
  shows "timers (resetInfoTimer s)
       = filter (\<lambda>t. snd (snd t) \<noteq> HideInfo) (timers s) @ [(next_timer s, now s + 4000, HideInfo)]"
proof -
  have own: "\<forall>t \<in> set (timers s). (snd (snd t) = HideInfo) = (infoTimer s = Some (fst t))"
    and pos: "\<forall>t \<in> set (timers s). 0 < fst t"
    using assms by (simp_all add: overlay_inv_def owners_ok_def handles_ok_def)
  show ?thesis
  proof (cases "infoTimer s")
    case None
    then have "filter (\<lambda>t. snd (snd t) \<noteq> HideInfo) (timers s) = timers s"
      using own by (simp add: filter_id_conv)
    then show ?thesis
      using None by (simp add: resetInfoTimer_def setTimeout_def Let_def)
  next
    case (Some h)
    show ?thesis
    proof (cases "h = 0")
      case True
      then have "filter (\<lambda>t. snd (snd t) \<noteq> HideInfo) (timers s) = timers s"
        using own pos Some by (fastforce simp: filter_id_conv)
      then show ?thesis
        using Some True by (simp add: resetInfoTimer_def setTimeout_def Let_def)
    next
      case False
      have "filter (\<lambda>t. fst t \<noteq> h) (timers s) = filter (\<lambda>t. snd (snd t) \<noteq> HideInfo) (timers s)"
        using own Some by (auto intro!: filter_cong)
      then show ?thesis
        using Some False by (simp add: resetInfoTimer_def setTimeout_def clearTimeout_def Let_def)
    qed
  qed
qed

lemma reset_showInfo: "showInfo (resetInfoTimer s)"
  by (simp add: resetInfoTimer_def setTimeout_def clearTimeout_def Let_def split: option.splits)

lemma fire_showInfo: "showInfo (overlay_fire cb s) = (showInfo s \<and> cb \<noteq> HideInfo)"
  by (cases cb) (simp_all add: invoke_def loadArtwork_loop_def)

lemma elapse_keeps_info:
  assumes "showInfo s" and "\<forall>t \<in> set (timers s). snd (snd t) = HideInfo \<longrightarrow> target < fst (snd t)"
  shows "showInfo (overlay_run_timers target s)"
proof (rule overlay_run_timers_rule
         [where P = "\<lambda>x. showInfo x
                    \<and> (\<forall>t \<in> set (timers x). snd (snd t) = HideInfo \<longrightarrow> target < fst (snd t))"])
  show "showInfo s \<and> (\<forall>t \<in> set (timers s). snd (snd t) = HideInfo \<longrightarrow> target < fst (snd t))"
    using assms by simp
next
  fix x :: overlay and h due cb
  assume p: "showInfo x \<and> (\<forall>t \<in> set (timers x). snd (snd t) = HideInfo \<longrightarrow> target < fst (snd t))"
    and e: "earliest (timers x) = Some (h, due, cb)" and le: "due \<le> target"
  have "cb \<noteq> HideInfo"
    using p earliest_mem [OF e] le by fastforce
  then show "showInfo (overlay_fire cb (x\<lparr>now := max (now x) due,
                 timers := filter (\<lambda>t. fst t \<noteq> h) (timers x)\<rparr>))
       \<and> (\<forall>t \<in> set (timers (overlay_fire cb (x\<lparr>now := max (now x) due,
                 timers := filter (\<lambda>t. fst t \<noteq> h) (timers x)\<rparr>))).
             snd (snd t) = HideInfo \<longrightarrow> target < fst (snd t))"
    using p by (simp add: fire_showInfo)
qed simp

lemma elapse_hides_info:
  assumes inv: "overlay_inv s" and mem: "(h, due, HideInfo) \<in> set (timers s)" and le: "due \<le> target"
  shows "\<not> showInfo (overlay_run_timers target s)"
proof (rule overlay_run_timers_rule
         [where P = "\<lambda>x. overlay_inv x \<and> ((h, due, HideInfo) \<in> set (timers x) \<or> \<not> showInfo x)"])
  show "overlay_inv s \<and> ((h, due, HideInfo) \<in> set (timers s) \<or> \<not> showInfo s)"
    using inv mem by simp
next
  fix x :: overlay and h' due' cb
  assume p: "overlay_inv x \<and> ((h, due, HideInfo) \<in> set (timers x) \<or> \<not> showInfo x)"
    and e: "earliest (timers x) = Some (h', due', cb)" and "due' \<le> target"
  let ?x' = "overlay_fire cb (x\<lparr>now := max (now x) due',
                 timers := filter (\<lambda>t. fst t \<noteq> h') (timers x)\<rparr>)"
  have dist: "distinct (map fst (timers x))"
    using p by (simp add: overlay_inv_def handles_ok_def)
  have "(h, due, HideInfo) \<in> set (timers ?x') \<or> \<not> showInfo ?x'"
  proof (cases "(h, due, HideInfo) \<in> set (timers x) \<and> h' = h")
    case True
    then have "(h', due', cb) = (h, due, HideInfo)"
      using distinct_fst_eq [OF dist earliest_mem [OF e], of "(h, due, HideInfo)"] by simp
    then show ?thesis by (simp add: fire_showInfo)
  next
    case False
    then show ?thesis using p by (auto simp: fire_showInfo)
  qed
  then show "overlay_inv ?x' \<and> ((h, due, HideInfo) \<in> set (timers ?x') \<or> \<not> showInfo ?x')"
    using p e by (simp add: fire_inv)
next
  fix x :: overlay
  assume "overlay_inv x \<and> ((h, due, HideInfo) \<in> set (timers x) \<or> \<not> showInfo x)"
    and "\<forall>t \<in> set (timers x). target < fst (snd t)"
  then show "\<not> showInfo (x\<lparr>now := max (now x) target\<rparr>)"
    using le by fastforce
qed

lemma elapse_hide_cause:
  assumes "showInfo s" and "\<not> showInfo (overlay_run_timers target s)"
  shows "\<exists>t \<in> set (timers s). snd (snd t) = HideInfo \<and> fst (snd t) \<le> target"
proof (rule ccontr)
  assume "\<not> (\<exists>t \<in> set (timers s). snd (snd t) = HideInfo \<and> fst (snd t) \<le> target)"
  then have "\<forall>t \<in> set (timers s). snd (snd t) = HideInfo \<longrightarrow> target < fst (snd t)"
    by (meson not_le_imp_less)
  then have "showInfo (overlay_run_timers target s)"
    using assms(1) by (simp add: elapse_keeps_info)
  then show False using assms(2) by simp
qed

lemma step_hide_cause:
  assumes "showInfo s" and "\<not> showInfo (overlay_step ev s)"
  shows "\<exists>d. ev = Elapse d
           \<and> (\<exists>t \<in> set (timers s). snd (snd t) = HideInfo \<and> fst (snd t) \<le> now s + d)"
proof (cases ev)
  case (Elapse d)
  then show ?thesis using assms elapse_hide_cause [of s "now s + d"] by simp
qed (use assms in \<open>simp_all add: on_artwork_changed_def new_object_def reset_showInfo
        onImageLoaded_def overlay_onKeyDown_def onMouseMove_def
        loadArtwork_settled_def loadArtwork_backoff_def loadArtwork_loop_def teardown_def
        setTimeout_def clearTimeout_def
        invoke_def Let_def split: option.splits loader.splits response.splits if_splits\<close>)

lemma one_per_handle:
  "distinct (map fst ts) \<Longrightarrow> \<forall>t \<in> set ts. P t \<longrightarrow> fst t = h \<Longrightarrow> length (filter P ts) \<le> 1"
proof (induction ts)
  case Nil
  then show ?case by simp
next
  case (Cons t ts)
  show ?case
  proof (cases "P t")
    case True
    then have "\<forall>u \<in> set ts. \<not> P u"
      using Cons.prems by (metis distinct.simps(2) image_eqI list.set_intros(1,2) list.simps(9) set_map)
    then have "filter P ts = []" by simp
    then show ?thesis using True by simp
  next
    case False
    then show ?thesis using Cons by simp
  qed
qed

lemma one_countdown:
  assumes "overlay_inv s"
  shows "length (filter (\<lambda>t. snd (snd t) = HideInfo) (timers s)) \<le> 1"
proof (cases "infoTimer s")
  case None
  then have "filter (\<lambda>t. snd (snd t) = HideInfo) (timers s) = []"
    using assms by (simp add: overlay_inv_def owners_ok_def)
  then show ?thesis by simp
next
  case (Some h)
  then show ?thesis
    using assms one_per_handle [of "timers s" "\<lambda>t. snd (snd t) = HideInfo" h]
    by (simp add: overlay_inv_def owners_ok_def handles_ok_def)
qed

lemma activity_countdown:
  assumes inv: "overlay_inv s"
  shows "showInfo (resetInfoTimer s)
     \<and> filter (\<lambda>t. snd (snd t) = HideInfo) (timers (resetInfoTimer s))
         = [(next_timer s, now s + 4000, HideInfo)]
     \<and> (\<forall>d < 4000. showInfo (overlay_step (Elapse d) (resetInfoTimer s)))
     \<and> (\<forall>d \<ge> 4000. \<not> showInfo (overlay_step (Elapse d) (resetInfoTimer s)))"
proof -
  let ?s' = "resetInfoTimer s"
  have tm: "timers ?s' = filter (\<lambda>t. snd (snd t) \<noteq> HideInfo) (timers s)
                          @ [(next_timer s, now s + 4000, HideInfo)]"
    using inv by (rule reset_timers)
  have nw: "now ?s' = now s"
    by (simp add: resetInfoTimer_def setTimeout_def clearTimeout_def Let_def split: option.splits)
  have one: "filter (\<lambda>t. snd (snd t) = HideInfo) (timers ?s') = [(next_timer s, now s + 4000, HideInfo)]"
    by (simp add: tm)
  have inv': "overlay_inv ?s'" using inv by (rule reset_inv)
  have early: "\<forall>d < 4000. showInfo (overlay_step (Elapse d) ?s')"
  proof (intro allI impI)
    fix d :: nat assume "d < 4000"
    then have "\<forall>t \<in> set (timers ?s'). snd (snd t) = HideInfo \<longrightarrow> now ?s' + d < fst (snd t)"
      by (auto simp: tm nw)
    then show "showInfo (overlay_step (Elapse d) ?s')"
      by (simp add: elapse_keeps_info reset_showInfo)
  qed
  have late: "\<forall>d \<ge> 4000. \<not> showInfo (overlay_step (Elapse d) ?s')"
  proof (intro allI impI)
    fix d :: nat assume "4000 \<le> d"
    then show "\<not> showInfo (overlay_step (Elapse d) ?s')"
      using elapse_hides_info [OF inv', of "next_timer s" "now s + 4000" "now ?s' + d"]
      by (simp add: tm nw)
  qed
  from one early late show ?thesis by (simp add: reset_showInfo)
qed

text \<open>
  Claim C9.  While the component is mounted, an artwork-change notification and a pointer
  movement each set \<open>showInfo\<close> and leave exactly one info-bar countdown armed, due
  4000 ms later, any earlier one being cancelled; the bar then stays visible for every
  pause shorter than 4000 ms and is hidden after a pause of 4000 ms or more.  In every
  reachable state at most one countdown is armed, and a step hides the bar only if it is
  the passing of time up to the due time of an armed countdown.
\<close>

theorem info_bar_countdown:
  "(Teardown \<notin> set evs \<and> (act = MouseMove \<or> act = ArtworkChanged payload) \<longrightarrow>
      showInfo (overlay_step act (overlay_run evs overlay_mount))
      \<and> filter (\<lambda>t. snd (snd t) = HideInfo)
           (timers (overlay_step act (overlay_run evs overlay_mount)))
          = [(next_timer (overlay_run evs overlay_mount),
              now (overlay_run evs overlay_mount) + 4000, HideInfo)]
      \<and> (\<forall>d < 4000. showInfo (overlay_step (Elapse d)
                          (overlay_step act (overlay_run evs overlay_mount))))
      \<and> (\<forall>d \<ge> 4000. \<not> showInfo (overlay_step (Elapse d)
                          (overlay_step act (overlay_run evs overlay_mount)))))
   \<and> length (filter (\<lambda>t. snd (snd t) = HideInfo) (timers (overlay_run evs overlay_mount))) \<le> 1
   \<and> (showInfo (overlay_run evs overlay_mount)
        \<and> \<not> showInfo (overlay_step ev (overlay_run evs overlay_mount)) \<longrightarrow>
        (\<exists>d. ev = Elapse d
           \<and> (\<exists>t \<in> set (timers (overlay_run evs overlay_mount)).
                 snd (snd t) = HideInfo
                 \<and> fst (snd t) \<le> now (overlay_run evs overlay_mount) + d)))"
proof -
  let ?s = "overlay_run evs overlay_mount"
  have inv: "overlay_inv ?s"
    using reachable_inv by simp
  have act: "Teardown \<notin> set evs \<and> (act = MouseMove \<or> act = ArtworkChanged payload) \<longrightarrow>
      showInfo (overlay_step act ?s)
      \<and> filter (\<lambda>t. snd (snd t) = HideInfo) (timers (overlay_step act ?s))
          = [(next_timer ?s, now ?s + 4000, HideInfo)]
      \<and> (\<forall>d < 4000. showInfo (overlay_step (Elapse d) (overlay_step act ?s)))
      \<and> (\<forall>d \<ge> 4000. \<not> showInfo (overlay_step (Elapse d) (overlay_step act ?s)))"
  proof
    assume a: "Teardown \<notin> set evs \<and> (act = MouseMove \<or> act = ArtworkChanged payload)"
    then have att: "attached ?s"
      using run_attached [of evs overlay_mount] mount_attached by simp
    let ?s2 = "?s\<lparr>next_addr := Suc (next_addr ?s),
                   nextArtwork := Some \<lparr>addr = next_addr ?s, art = payload\<rparr>\<rparr>"
    have inv2: "overlay_inv ?s2"
      using changed_inv_update [OF inv] .
    from a show "showInfo (overlay_step act ?s)
      \<and> filter (\<lambda>t. snd (snd t) = HideInfo) (timers (overlay_step act ?s))
          = [(next_timer ?s, now ?s + 4000, HideInfo)]
      \<and> (\<forall>d < 4000. showInfo (overlay_step (Elapse d) (overlay_step act ?s)))
      \<and> (\<forall>d \<ge> 4000. \<not> showInfo (overlay_step (Elapse d) (overlay_step act ?s)))"
    proof (elim conjE disjE)
      assume "act = MouseMove"
      then have "overlay_step act ?s = resetInfoTimer ?s"
        using att by (simp add: attached_def onMouseMove_def)
      then show ?thesis
        using activity_countdown [OF inv] by simp
    next
      assume "act = ArtworkChanged payload"
      then have "overlay_step act ?s = resetInfoTimer ?s2"
        using att by (simp add: attached_def on_artwork_changed_def new_object_def Let_def)
      then show ?thesis
        using activity_countdown [OF inv2] by simp
    qed
  qed
  have one: "length (filter (\<lambda>t. snd (snd t) = HideInfo) (timers ?s)) \<le> 1"
    using inv by (rule one_countdown)
  have cause: "showInfo ?s \<and> \<not> showInfo (overlay_step ev ?s) \<longrightarrow>
        (\<exists>d. ev = Elapse d
           \<and> (\<exists>t \<in> set (timers ?s). snd (snd t) = HideInfo \<and> fst (snd t) \<le> now ?s + d))"
    using step_hide_cause by blast
  from act one cause show ?thesis by blast
qed

theorem info_bar_countdown_witness:
  "Teardown \<notin> set [Elapse 1000]
   \<and> showInfo (overlay_step MouseMove (overlay_run [Elapse 1000] overlay_mount))
   \<and> filter (\<lambda>t. snd (snd t) = HideInfo)
        (timers (overlay_step MouseMove (overlay_run [Elapse 1000] overlay_mount)))
       = [(2, 5000, HideInfo)]
   \<and> showInfo (overlay_step (Elapse 3999)
                 (overlay_step MouseMove (overlay_run [Elapse 1000] overlay_mount)))
   \<and> \<not> showInfo (overlay_step (Elapse 4000)
                 (overlay_step MouseMove (overlay_run [Elapse 1000] overlay_mount)))
   \<and> showInfo (overlay_run [Elapse 1000, MouseMove] overlay_mount)
   \<and> \<not> showInfo (overlay_step (Elapse 4000) (overlay_run [Elapse 1000, MouseMove] overlay_mount))
   \<and> (\<exists>t \<in> set (timers (overlay_run [Elapse 1000, MouseMove] overlay_mount)).
         snd (snd t) = HideInfo
         \<and> fst (snd t) \<le> now (overlay_run [Elapse 1000, MouseMove] overlay_mount) + 4000)"
proof -
  have n: "now (overlay_run [Elapse 1000] overlay_mount) = 1000"
    and t: "next_timer (overlay_run [Elapse 1000] overlay_mount) = 2"
    by code_simp+
  have r: "overlay_run [Elapse 1000, MouseMove] overlay_mount
             = overlay_step MouseMove (overlay_run [Elapse 1000] overlay_mount)"
    by simp
  from info_bar_countdown [of "[Elapse 1000]" MouseMove artwork_A "Elapse 4000"]
       info_bar_countdown [of "[Elapse 1000, MouseMove]" MouseMove artwork_A "Elapse 4000"]
       n t r
  show ?thesis by (simp del: overlay_run.simps overlay_step.simps)
qed

section \<open>Notifications and decode-complete events\<close>

lemma reset_buffers:
  "displayedArtwork (resetInfoTimer s) = displayedArtwork s"
  "nextArtwork (resetInfoTimer s) = nextArtwork s"
  "next_addr (resetInfoTimer s) = next_addr s"
  "mounted (resetInfoTimer s) = mounted s"
  by (simp_all add: resetInfoTimer_def setTimeout_def clearTimeout_def Let_def split: option.splits)

lemma changed_buffers:
  "displayedArtwork (on_artwork_changed a s) = displayedArtwork s"
  "nextArtwork (on_artwork_changed a s) = Some \<lparr>addr = next_addr s, art = a\<rparr>"
  "next_addr (on_artwork_changed a s) = Suc (next_addr s)"
  by (simp_all add: on_artwork_changed_def new_object_def reset_buffers Let_def)

text \<open>
  Claim C6, as the code has it.  An artwork-change notification received by a mounted
  controller leaves \<open>displayedArtwork\<close> unchanged and stores the newly delivered payload
  object in \<open>nextArtwork\<close>, whatever its \<open>id\<close>; the render guard compares object identity,
  the new object is never the displayed one, and so the next image is rendered and a
  decode cycle starts, also when the payload has the \<open>id\<close> of the displayed artwork.
\<close>

theorem notification_always_starts_decode:
  "Teardown \<notin> set evs \<longrightarrow>
     displayedArtwork (overlay_step (ArtworkChanged payload) (overlay_run evs overlay_mount))
       = displayedArtwork (overlay_run evs overlay_mount)
     \<and> nextArtwork (overlay_step (ArtworkChanged payload) (overlay_run evs overlay_mount))
         = Some \<lparr>addr = next_addr (overlay_run evs overlay_mount), art = payload\<rparr>
     \<and> next_image_rendered
          (overlay_step (ArtworkChanged payload) (overlay_run evs overlay_mount))"
proof
  let ?s = "overlay_run evs overlay_mount"
  assume a: "Teardown \<notin> set evs"
  then have att: "attached ?s"
    using run_attached [of evs overlay_mount] mount_attached by simp
  have inv: "overlay_inv ?s"
    using reachable_inv by simp
  have old: "\<forall>obj. displayedArtwork ?s = Some obj \<longrightarrow> addr obj < next_addr ?s"
    using inv by (simp add: overlay_inv_def addrs_ok_def)
  have st: "overlay_step (ArtworkChanged payload) ?s = on_artwork_changed payload ?s"
    using att by (simp add: attached_def)
  have m: "mounted (on_artwork_changed payload ?s)"
    using att by (simp add: attached_def on_artwork_changed_def new_object_def reset_buffers Let_def)
  have "next_image_rendered (on_artwork_changed payload ?s)"
    using m old by (auto simp: next_image_rendered_def changed_buffers split: option.splits)
  then show "displayedArtwork (overlay_step (ArtworkChanged payload) ?s) = displayedArtwork ?s
     \<and> nextArtwork (overlay_step (ArtworkChanged payload) ?s)
         = Some \<lparr>addr = next_addr ?s, art = payload\<rparr>
     \<and> next_image_rendered (overlay_step (ArtworkChanged payload) ?s)"
    by (simp add: st changed_buffers del: overlay_step.simps)
qed

theorem notification_always_starts_decode_witness:
  "Teardown \<notin> set [ArtworkChanged artwork_A, ImageLoad (image_base64 artwork_A)]
   \<and> displayedArtwork
        (overlay_step (ArtworkChanged artwork_B)
           (overlay_run [ArtworkChanged artwork_A, ImageLoad (image_base64 artwork_A)]
              overlay_mount))
       = Some \<lparr>addr = 0, art = artwork_A\<rparr>
   \<and> nextArtwork
        (overlay_step (ArtworkChanged artwork_B)
           (overlay_run [ArtworkChanged artwork_A, ImageLoad (image_base64 artwork_A)]
              overlay_mount))
       = Some \<lparr>addr = 1, art = artwork_B\<rparr>
   \<and> next_image_rendered
        (overlay_step (ArtworkChanged artwork_B)
           (overlay_run [ArtworkChanged artwork_A, ImageLoad (image_base64 artwork_A)]
              overlay_mount))"
proof -
  have n: "next_addr (overlay_run [ArtworkChanged artwork_A, ImageLoad (image_base64 artwork_A)]
              overlay_mount) = 1"
    and d: "displayedArtwork (overlay_run [ArtworkChanged artwork_A, ImageLoad (image_base64 artwork_A)]
              overlay_mount) = Some \<lparr>addr = 0, art = artwork_A\<rparr>"
    by code_simp+
  from notification_always_starts_decode
         [of "[ArtworkChanged artwork_A, ImageLoad (image_base64 artwork_A)]" artwork_B] n d
  show ?thesis by (simp del: overlay_run.simps overlay_step.simps)
qed

theorem duplicate_notification_counterexample:
  "displayedArtwork
     (overlay_run [ArtworkChanged artwork_A, ImageLoad (image_base64 artwork_A),
                   ArtworkChanged artwork_A] overlay_mount)
     = Some \<lparr>addr = 0, art = artwork_A\<rparr>
   \<and> nextArtwork
       (overlay_run [ArtworkChanged artwork_A, ImageLoad (image_base64 artwork_A),
                     ArtworkChanged artwork_A] overlay_mount)
       = Some \<lparr>addr = 1, art = artwork_A\<rparr>
   \<and> id_str (art \<lparr>addr = 1, art = artwork_A\<rparr>) = id_str (art \<lparr>addr = 0, art = artwork_A\<rparr>)
   \<and> next_image_rendered
       (overlay_run [ArtworkChanged artwork_A, ImageLoad (image_base64 artwork_A),
                     ArtworkChanged artwork_A] overlay_mount)
   \<and> displayedArtwork
       (overlay_run [ArtworkChanged artwork_A, ImageLoad (image_base64 artwork_A),
                     ArtworkChanged artwork_A, ImageLoad (image_base64 artwork_A)]
          overlay_mount)
       = Some \<lparr>addr = 1, art = artwork_A\<rparr>"
  by code_simp

section \<open>The initial load\<close>

lemma attempts_bound: "overlay_inv s \<Longrightarrow> attempts s \<le> retries"
  by (auto simp: overlay_inv_def loader_ok_def Let_def split: loader.splits)

lemma fire_loader_other:
  "\<not> is_retry cb \<Longrightarrow>
   attempts (overlay_fire cb x) = attempts x \<and> loadArtwork_pc (overlay_fire cb x) = loadArtwork_pc x"
  by (cases cb) (simp_all add: attempts_def invoke_def)

lemma elapse_before_retry:
  assumes "\<forall>t \<in> set (timers s). is_retry (snd (snd t)) \<longrightarrow> target < fst (snd t)"
  shows "attempts (overlay_run_timers target s) = attempts s
       \<and> loadArtwork_pc (overlay_run_timers target s) = loadArtwork_pc s"
proof (rule overlay_run_timers_rule
         [where P = "\<lambda>x. attempts x = attempts s \<and> loadArtwork_pc x = loadArtwork_pc s
                    \<and> (\<forall>t \<in> set (timers x). is_retry (snd (snd t)) \<longrightarrow> target < fst (snd t))"])
  show "attempts s = attempts s \<and> loadArtwork_pc s = loadArtwork_pc s
        \<and> (\<forall>t \<in> set (timers s). is_retry (snd (snd t)) \<longrightarrow> target < fst (snd t))"
    using assms by simp
next
  fix x :: overlay and h due cb
  assume p: "attempts x = attempts s \<and> loadArtwork_pc x = loadArtwork_pc s
             \<and> (\<forall>t \<in> set (timers x). is_retry (snd (snd t)) \<longrightarrow> target < fst (snd t))"
    and e: "earliest (timers x) = Some (h, due, cb)" and le: "due \<le> target"
  let ?x' = "x\<lparr>now := max (now x) due, timers := filter (\<lambda>t. fst t \<noteq> h) (timers x)\<rparr>"
  have "\<not> is_retry cb"
    using p earliest_mem [OF e] le by fastforce
  then have "attempts (overlay_fire cb ?x') = attempts ?x'
       \<and> loadArtwork_pc (overlay_fire cb ?x') = loadArtwork_pc ?x'"
    by (rule fire_loader_other)
  then show "attempts (overlay_fire cb ?x') = attempts s
       \<and> loadArtwork_pc (overlay_fire cb ?x') = loadArtwork_pc s
       \<and> (\<forall>t \<in> set (timers (overlay_fire cb ?x')). is_retry (snd (snd t)) \<longrightarrow> target < fst (snd t))"
    using p by (simp add: attempts_def)
qed (simp add: attempts_def)

lemma elapse_retry_wake:
  assumes inv: "overlay_inv s" and pc: "loadArtwork_pc s = Sleeping k"
    and mem: "(h, due, RetryWake k) \<in> set (timers s)" and le: "due \<le> target"
  shows "attempts (overlay_run_timers target s) = Suc (attempts s)
       \<and> loadArtwork_pc (overlay_run_timers target s) = Awaiting (Suc k)"
proof (rule overlay_run_timers_rule
         [where P = "\<lambda>x. overlay_inv x
                    \<and> (((h, due, RetryWake k) \<in> set (timers x)
                         \<and> loadArtwork_pc x = Sleeping k \<and> attempts x = attempts s)
                       \<or> (loadArtwork_pc x = Awaiting (Suc k) \<and> attempts x = Suc (attempts s)))"])
  show "overlay_inv s
        \<and> (((h, due, RetryWake k) \<in> set (timers s)
             \<and> loadArtwork_pc s = Sleeping k \<and> attempts s = attempts s)
           \<or> (loadArtwork_pc s = Awaiting (Suc k) \<and> attempts s = Suc (attempts s)))"
    using assms by simp
next
  fix x :: overlay and h' due' cb
  assume p: "overlay_inv x
        \<and> (((h, due, RetryWake k) \<in> set (timers x)
             \<and> loadArtwork_pc x = Sleeping k \<and> attempts x = attempts s)
           \<or> (loadArtwork_pc x = Awaiting (Suc k) \<and> attempts x = Suc (attempts s)))"
    and e: "earliest (timers x) = Some (h', due', cb)" and "due' \<le> target"
  let ?R = "\<lambda>u::nat \<times> nat \<times> overlay_cb. is_retry (snd (snd u))"
  let ?x' = "x\<lparr>now := max (now x) due', timers := filter (\<lambda>t. fst t \<noteq> h') (timers x)\<rparr>"
  have mem': "(h', due', cb) \<in> set (timers x)"
    using e by (rule earliest_mem)
  have dist: "distinct (map fst (timers x))" and lo: "loader_ok x"
    using p by (simp_all add: overlay_inv_def handles_ok_def)
  have inv': "overlay_inv (overlay_fire cb ?x')"
    using p e by (simp add: fire_inv)
  have "((h, due, RetryWake k) \<in> set (timers (overlay_fire cb ?x'))
             \<and> loadArtwork_pc (overlay_fire cb ?x') = Sleeping k
             \<and> attempts (overlay_fire cb ?x') = attempts s)
           \<or> (loadArtwork_pc (overlay_fire cb ?x') = Awaiting (Suc k)
               \<and> attempts (overlay_fire cb ?x') = Suc (attempts s))"
  proof (cases "is_retry cb")
    case False
    have frame: "attempts (overlay_fire cb ?x') = attempts x"
      "loadArtwork_pc (overlay_fire cb ?x') = loadArtwork_pc x"
      using fire_loader_other [OF False, of ?x'] by (simp_all add: attempts_def)
    have "h' \<noteq> h" if "(h, due, RetryWake k) \<in> set (timers x)"
      using distinct_fst_eq [OF dist mem' that] False by auto
    then show ?thesis using p frame by auto
  next
    case True
    have in_rs: "(h', due', cb) \<in> set (filter ?R (timers x))"
      using mem' True by simp
    then have "filter ?R (timers x) \<noteq> []"
      by (metis empty_iff empty_set)
    then have ne: "map (\<lambda>u. snd (snd u)) (filter ?R (timers x)) \<noteq> []"
      by simp
    from lo ne obtain k' where pc': "loadArtwork_pc x = Sleeping k'"
      and rs: "map (\<lambda>u. snd (snd u)) (filter ?R (timers x)) = [RetryWake k']"
      and lt: "Suc k' < retries"
      by (auto simp: loader_ok_def Let_def split: loader.splits)
    have first: "(h, due, RetryWake k) \<in> set (timers x) \<and> loadArtwork_pc x = Sleeping k
                 \<and> attempts x = attempts s"
      using p pc' by auto
    then have kk: "k' = k" using pc' by simp
    have "filter ?R (timers x) = [(h', due', cb)]"
      using singleton_member [OF rs in_rs] .
    then have "cb = RetryWake k" using rs kk by simp
    then show ?thesis
      using first lt kk by (simp add: loadArtwork_loop_def invoke_def attempts_def)
  qed
  then show "overlay_inv (overlay_fire cb ?x')
        \<and> (((h, due, RetryWake k) \<in> set (timers (overlay_fire cb ?x'))
             \<and> loadArtwork_pc (overlay_fire cb ?x') = Sleeping k
             \<and> attempts (overlay_fire cb ?x') = attempts s)
           \<or> (loadArtwork_pc (overlay_fire cb ?x') = Awaiting (Suc k)
               \<and> attempts (overlay_fire cb ?x') = Suc (attempts s)))"
    using inv' by simp
next
  fix x :: overlay
  assume "overlay_inv x
        \<and> (((h, due, RetryWake k) \<in> set (timers x)
             \<and> loadArtwork_pc x = Sleeping k \<and> attempts x = attempts s)
           \<or> (loadArtwork_pc x = Awaiting (Suc k) \<and> attempts x = Suc (attempts s)))"
    and "\<forall>t \<in> set (timers x). target < fst (snd t)"
  then show "attempts (x\<lparr>now := max (now x) target\<rparr>) = Suc (attempts s)
       \<and> loadArtwork_pc (x\<lparr>now := max (now x) target\<rparr>) = Awaiting (Suc k)"
    using le by (fastforce simp: attempts_def)
qed

lemma failure_backoff:
  assumes "loadArtwork_pc s = Awaiting k" and "Suc k < retries" and "\<not> succeeded r"
  shows "loadArtwork_pc (loadArtwork_settled r s) = Sleeping k
     \<and> attempts (loadArtwork_settled r s) = attempts s
     \<and> timers (loadArtwork_settled r s) = timers s @ [(next_timer s, now s + 200, RetryWake k)]
     \<and> now (loadArtwork_settled r s) = now s
     \<and> nextArtwork (loadArtwork_settled r s) = nextArtwork s
     \<and> displayedArtwork (loadArtwork_settled r s) = displayedArtwork s
     \<and> loading (loadArtwork_settled r s) = loading s"
proof (cases r)
  case (Resolved ao)
  have lt: "k < retries - 1" using assms(2) by simp
  have "ao = None" using assms(3) Resolved by (cases ao) simp_all
  then show ?thesis
    using assms(1) lt Resolved
    by (simp add: loadArtwork_settled_def loadArtwork_backoff_def setTimeout_def attempts_def Let_def)
next
  case (Rejected e)
  have lt: "k < retries - 1" using assms(2) by simp
  show ?thesis
    using assms(1) lt Rejected
    by (simp add: loadArtwork_settled_def loadArtwork_backoff_def setTimeout_def attempts_def Let_def)
qed

lemma failure_last:
  assumes "loadArtwork_pc s = Awaiting k" and "\<not> Suc k < retries" and "\<not> succeeded r"
  shows "loadArtwork_pc (loadArtwork_settled r s) = Finished
     \<and> attempts (loadArtwork_settled r s) = attempts s
     \<and> timers (loadArtwork_settled r s) = timers s
     \<and> nextArtwork (loadArtwork_settled r s) = nextArtwork s
     \<and> displayedArtwork (loadArtwork_settled r s) = displayedArtwork s
     \<and> loading (loadArtwork_settled r s) = loading s"
proof (cases r)
  case (Resolved ao)
  have ge: "\<not> k < retries - 1" "\<not> Suc k < retries" using assms(2) by simp_all
  have "ao = None" using assms(3) Resolved by (cases ao) simp_all
  then show ?thesis
    using assms(1) ge Resolved
    by (simp add: loadArtwork_settled_def loadArtwork_backoff_def loadArtwork_loop_def
          attempts_def Let_def)
next
  case (Rejected e)
  have ge: "\<not> k < retries - 1" "\<not> Suc k < retries" using assms(2) by simp_all
  show ?thesis
    using assms(1) ge Rejected
    by (simp add: loadArtwork_settled_def loadArtwork_backoff_def loadArtwork_loop_def
          attempts_def Let_def)
qed

lemma failure_spacing:
  assumes inv: "overlay_inv s" and pc: "loadArtwork_pc s = Awaiting k"
    and lt: "Suc k < retries" and f: "\<not> succeeded r"
  shows "(\<forall>d < 200. attempts (overlay_step (Elapse d) (loadArtwork_settled r s)) = attempts s
                   \<and> loadArtwork_pc (overlay_step (Elapse d) (loadArtwork_settled r s)) = Sleeping k)
     \<and> (\<forall>d \<ge> 200. attempts (overlay_step (Elapse d) (loadArtwork_settled r s)) = Suc (attempts s)
                   \<and> loadArtwork_pc (overlay_step (Elapse d) (loadArtwork_settled r s))
                       = Awaiting (Suc k))"
proof -
  let ?s' = "loadArtwork_settled r s"
  note b = failure_backoff [OF pc lt f]
  have inv': "overlay_inv ?s'" using inv by (rule settled_inv)
  have none: "filter (\<lambda>t. is_retry (snd (snd t))) (timers s) = []"
    using inv pc by (simp add: overlay_inv_def loader_ok_def Let_def)
  then have nr: "\<forall>t \<in> set (timers s). \<not> is_retry (snd (snd t))"
    by (simp add: filter_empty_conv)
  have early: "\<forall>d < 200. attempts (overlay_step (Elapse d) ?s') = attempts s
                   \<and> loadArtwork_pc (overlay_step (Elapse d) ?s') = Sleeping k"
  proof (intro allI impI)
    fix d :: nat assume "d < 200"
    then have "\<forall>t \<in> set (timers ?s'). is_retry (snd (snd t)) \<longrightarrow> now ?s' + d < fst (snd t)"
      using b nr by auto
    then show "attempts (overlay_step (Elapse d) ?s') = attempts s
                   \<and> loadArtwork_pc (overlay_step (Elapse d) ?s') = Sleeping k"
      using elapse_before_retry [of ?s' "now ?s' + d"] b by simp
  qed
  have late: "\<forall>d \<ge> 200. attempts (overlay_step (Elapse d) ?s') = Suc (attempts s)
                   \<and> loadArtwork_pc (overlay_step (Elapse d) ?s') = Awaiting (Suc k)"
  proof (intro allI impI)
    fix d :: nat assume "200 \<le> d"
    then show "attempts (overlay_step (Elapse d) ?s') = Suc (attempts s)
                   \<and> loadArtwork_pc (overlay_step (Elapse d) ?s') = Awaiting (Suc k)"
      using elapse_retry_wake [OF inv', of k "next_timer s" "now s + 200" "now ?s' + d"] b
      by simp
  qed
  from early late show ?thesis by simp
qed

lemma success_result:
  assumes inv: "overlay_inv s" and pc: "loadArtwork_pc s = Awaiting k"
  shows "nextArtwork (loadArtwork_settled (Resolved (Some a)) s) = Some \<lparr>addr = next_addr s, art = a\<rparr>
     \<and> displayedArtwork (loadArtwork_settled (Resolved (Some a)) s) = displayedArtwork s
     \<and> showInfo (loadArtwork_settled (Resolved (Some a)) s)
     \<and> filter (\<lambda>t. snd (snd t) = HideInfo) (timers (loadArtwork_settled (Resolved (Some a)) s))
         = [(next_timer s, now s + 4000, HideInfo)]
     \<and> loadArtwork_pc (loadArtwork_settled (Resolved (Some a)) s) = Finished
     \<and> attempts (loadArtwork_settled (Resolved (Some a)) s) = attempts s"
proof -
  let ?s2 = "s\<lparr>next_addr := Suc (next_addr s), nextArtwork := Some \<lparr>addr = next_addr s, art = a\<rparr>\<rparr>"
  have eq: "loadArtwork_settled (Resolved (Some a)) s = (resetInfoTimer ?s2)\<lparr>loadArtwork_pc := Finished\<rparr>"
    using pc by (simp add: loadArtwork_settled_def new_object_def Let_def)
  have inv2: "overlay_inv ?s2" using inv by (rule changed_inv_update)
  show ?thesis
    using activity_countdown [OF inv2]
    by (simp add: eq reset_buffers reset_frame attempts_def)
qed

lemma finished_stays_step:
  assumes inv: "overlay_inv s" and pc: "loadArtwork_pc s = Finished"
  shows "loadArtwork_pc (overlay_step ev s) = Finished \<and> attempts (overlay_step ev s) = attempts s"
proof (cases ev)
  case (Elapse d)
  have "filter (\<lambda>t. is_retry (snd (snd t))) (timers s) = []"
    using inv pc by (simp add: overlay_inv_def loader_ok_def Let_def)
  then have "\<forall>t \<in> set (timers s). \<not> is_retry (snd (snd t))"
    by (simp add: filter_empty_conv)
  then show ?thesis
    using Elapse elapse_before_retry [of s "now s + d"] pc by simp
qed (use pc in \<open>simp_all add: attempts_def on_artwork_changed_def new_object_def
        resetInfoTimer_def onImageLoaded_def overlay_onKeyDown_def onMouseMove_def
        loadArtwork_settled_def teardown_def setTimeout_def clearTimeout_def
        invoke_def Let_def split: option.splits\<close>)

lemma finished_stays_run:
  "overlay_inv s \<and> armed_ahead s \<Longrightarrow> loadArtwork_pc s = Finished \<Longrightarrow>
   loadArtwork_pc (overlay_run evs s) = Finished \<and> attempts (overlay_run evs s) = attempts s"
proof (induction evs arbitrary: s)
  case Nil
  then show ?case by simp
next
  case (Cons ev evs)
  have st: "loadArtwork_pc (overlay_step ev s) = Finished \<and> attempts (overlay_step ev s) = attempts s"
    using Cons.prems finished_stays_step by blast
  have "overlay_inv (overlay_step ev s) \<and> armed_ahead (overlay_step ev s)"
    using Cons.prems(1) by (rule step_inv)
  then show ?case
    using Cons.IH [of "overlay_step ev s"] st by (simp del: overlay_step.simps)
qed

lemma fire_empty: "empty_loading (overlay_fire cb s) = empty_loading s"
  by (cases cb) (simp_all add: empty_loading_def invoke_def loadArtwork_loop_def)

lemma elapse_empty: "empty_loading s \<Longrightarrow> empty_loading (overlay_run_timers target s)"
  by (rule overlay_run_timers_rule [where P = empty_loading])
     (simp_all add: fire_empty, simp_all add: empty_loading_def)

lemma empty_stays_step:
  assumes "empty_loading s" and "\<not> brings_artwork ev"
  shows "empty_loading (overlay_step ev s)"
proof (cases ev)
  case (Elapse d)
  then show ?thesis using assms elapse_empty by simp
next
  case (GetCurrentSettled r)
  then have f: "\<not> succeeded r" using assms by simp
  show ?thesis
  proof (cases "loadArtwork_pc s")
    case (Awaiting k)
    then show ?thesis
      using GetCurrentSettled assms(1) failure_backoff [OF Awaiting _ f] failure_last [OF Awaiting _ f]
      by (cases "Suc k < retries") (simp_all add: empty_loading_def)
  qed (use GetCurrentSettled assms in \<open>simp_all add: loadArtwork_settled_def\<close>)
qed (use assms in \<open>simp_all add: empty_loading_def next_image_rendered_def
        resetInfoTimer_def overlay_onKeyDown_def onMouseMove_def
        teardown_def setTimeout_def clearTimeout_def
        invoke_def Let_def split: option.splits\<close>)

lemma empty_stays_run:
  "empty_loading s \<Longrightarrow> \<forall>ev \<in> set evs. \<not> brings_artwork ev \<Longrightarrow> empty_loading (overlay_run evs s)"
  by (induction evs arbitrary: s) (simp_all add: empty_stays_step del: overlay_step.simps)

lemma empty_render:
  "empty_loading s \<Longrightarrow> render s = \<lparr>image = None, next_image = None, info_bar = None, spinner = True\<rparr>"
  by (simp add: empty_loading_def render_def next_image_rendered_def)

lemma mount_empty: "empty_loading overlay_mount"
  by (simp add: empty_loading_def overlay_mount_def overlay_init_def loadArtwork_loop_def
        retries_def invoke_def setTimeout_def Let_def)

text \<open>
  Claim C5.  Mounting makes the first call of \<open>get_current_artwork\<close>, and no run makes
  more than three.  After a failed attempt that is not the third, the next call is made
  when 200 ms have passed and not before.  An answer carrying an artwork puts it in
  \<open>nextArtwork\<close>, shows the info bar and restarts its 4000 ms countdown, and ends the
  loader: no further call is made whatever follows.  A failed third attempt ends the
  loader as well.  As long as no artwork has arrived by either path, \<open>displayedArtwork\<close>
  and \<open>nextArtwork\<close> are empty, \<open>loading\<close> is true, and the rendered view is the one of the
  freshly mounted component: spinner only, no image, no info bar, nothing about an error.
\<close>

theorem initial_load_retries:
  "attempts overlay_mount = 1 \<and> loadArtwork_pc overlay_mount = Awaiting 0
   \<and> attempts (overlay_run evs overlay_mount) \<le> 3
   \<and> (loadArtwork_pc (overlay_run evs overlay_mount) = Awaiting k \<and> Suc k < 3 \<and> \<not> succeeded r \<longrightarrow>
        (\<forall>d < 200.
           attempts (overlay_run [GetCurrentSettled r, Elapse d] (overlay_run evs overlay_mount))
             = attempts (overlay_run evs overlay_mount))
        \<and> (\<forall>d \<ge> 200.
           attempts (overlay_run [GetCurrentSettled r, Elapse d] (overlay_run evs overlay_mount))
             = Suc (attempts (overlay_run evs overlay_mount))
           \<and> loadArtwork_pc
               (overlay_run [GetCurrentSettled r, Elapse d] (overlay_run evs overlay_mount))
             = Awaiting (Suc k)))
   \<and> (loadArtwork_pc (overlay_run evs overlay_mount) = Awaiting k \<longrightarrow>
        nextArtwork (overlay_step (GetCurrentSettled (Resolved (Some a)))
                       (overlay_run evs overlay_mount))
          = Some \<lparr>addr = next_addr (overlay_run evs overlay_mount), art = a\<rparr>
        \<and> showInfo (overlay_step (GetCurrentSettled (Resolved (Some a)))
                       (overlay_run evs overlay_mount))
        \<and> filter (\<lambda>t. snd (snd t) = HideInfo)
             (timers (overlay_step (GetCurrentSettled (Resolved (Some a)))
                        (overlay_run evs overlay_mount)))
            = [(next_timer (overlay_run evs overlay_mount),
                now (overlay_run evs overlay_mount) + 4000, HideInfo)]
        \<and> attempts (overlay_run evs'
                       (overlay_step (GetCurrentSettled (Resolved (Some a)))
                          (overlay_run evs overlay_mount)))
            = attempts (overlay_run evs overlay_mount))
   \<and> (loadArtwork_pc (overlay_run evs overlay_mount) = Awaiting 2 \<and> \<not> succeeded r \<longrightarrow>
        loadArtwork_pc (overlay_step (GetCurrentSettled r) (overlay_run evs overlay_mount))
          = Finished
        \<and> attempts (overlay_run evs'
                       (overlay_step (GetCurrentSettled r) (overlay_run evs overlay_mount)))
            = 3)
   \<and> ((\<forall>ev \<in> set evs. \<not> brings_artwork ev) \<longrightarrow>
        displayedArtwork (overlay_run evs overlay_mount) = None
        \<and> nextArtwork (overlay_run evs overlay_mount) = None
        \<and> loading (overlay_run evs overlay_mount)
        \<and> render (overlay_run evs overlay_mount) = render overlay_mount)"
proof -
  let ?s = "overlay_run evs overlay_mount"
  have inv: "overlay_inv ?s" and ahead: "armed_ahead ?s"
    using reachable_inv by simp_all
  have start: "attempts overlay_mount = 1 \<and> loadArtwork_pc overlay_mount = Awaiting 0"
    by (simp add: attempts_def overlay_mount_def overlay_init_def loadArtwork_loop_def
          retries_def invoke_def setTimeout_def Let_def)
  have bound: "attempts ?s \<le> 3"
    using attempts_bound [OF inv] by (simp add: retries_def)
  have spacing: "loadArtwork_pc ?s = Awaiting k \<and> Suc k < 3 \<and> \<not> succeeded r \<longrightarrow>
        (\<forall>d < 200. attempts (overlay_run [GetCurrentSettled r, Elapse d] ?s) = attempts ?s)
        \<and> (\<forall>d \<ge> 200. attempts (overlay_run [GetCurrentSettled r, Elapse d] ?s) = Suc (attempts ?s)
             \<and> loadArtwork_pc (overlay_run [GetCurrentSettled r, Elapse d] ?s) = Awaiting (Suc k))"
  proof
    assume a: "loadArtwork_pc ?s = Awaiting k \<and> Suc k < 3 \<and> \<not> succeeded r"
    then show "(\<forall>d < 200. attempts (overlay_run [GetCurrentSettled r, Elapse d] ?s) = attempts ?s)
        \<and> (\<forall>d \<ge> 200. attempts (overlay_run [GetCurrentSettled r, Elapse d] ?s) = Suc (attempts ?s)
             \<and> loadArtwork_pc (overlay_run [GetCurrentSettled r, Elapse d] ?s) = Awaiting (Suc k))"
      using failure_spacing [OF inv, of k r] by (simp add: retries_def)
  qed
  have success: "loadArtwork_pc ?s = Awaiting k \<longrightarrow>
        nextArtwork (overlay_step (GetCurrentSettled (Resolved (Some a))) ?s)
          = Some \<lparr>addr = next_addr ?s, art = a\<rparr>
        \<and> showInfo (overlay_step (GetCurrentSettled (Resolved (Some a))) ?s)
        \<and> filter (\<lambda>t. snd (snd t) = HideInfo)
             (timers (overlay_step (GetCurrentSettled (Resolved (Some a))) ?s))
            = [(next_timer ?s, now ?s + 4000, HideInfo)]
        \<and> attempts (overlay_run evs' (overlay_step (GetCurrentSettled (Resolved (Some a))) ?s))
            = attempts ?s"
  proof
    assume pc: "loadArtwork_pc ?s = Awaiting k"
    let ?s' = "overlay_step (GetCurrentSettled (Resolved (Some a))) ?s"
    note res = success_result [OF inv pc, of a]
    have "overlay_inv ?s' \<and> armed_ahead ?s'"
      using inv ahead step_inv by blast
    then have "attempts (overlay_run evs' ?s') = attempts ?s'"
      using finished_stays_run [of ?s' evs'] res by simp
    then show "nextArtwork ?s' = Some \<lparr>addr = next_addr ?s, art = a\<rparr>
        \<and> showInfo ?s'
        \<and> filter (\<lambda>t. snd (snd t) = HideInfo) (timers ?s') = [(next_timer ?s, now ?s + 4000, HideInfo)]
        \<and> attempts (overlay_run evs' ?s') = attempts ?s"
      using res by simp
  qed
  have last: "loadArtwork_pc ?s = Awaiting 2 \<and> \<not> succeeded r \<longrightarrow>
        loadArtwork_pc (overlay_step (GetCurrentSettled r) ?s) = Finished
        \<and> attempts (overlay_run evs' (overlay_step (GetCurrentSettled r) ?s)) = 3"
  proof
    assume a: "loadArtwork_pc ?s = Awaiting 2 \<and> \<not> succeeded r"
    let ?s' = "overlay_step (GetCurrentSettled r) ?s"
    have fl: "loadArtwork_pc ?s' = Finished \<and> attempts ?s' = attempts ?s"
      using failure_last [of ?s 2 r] a by (simp add: retries_def)
    have three: "attempts ?s = 3"
      using inv a by (simp add: overlay_inv_def loader_ok_def Let_def)
    have "overlay_inv ?s' \<and> armed_ahead ?s'"
      using inv ahead step_inv by blast
    then have "attempts (overlay_run evs' ?s') = attempts ?s'"
      using finished_stays_run [of ?s' evs'] fl by simp
    then show "loadArtwork_pc ?s' = Finished \<and> attempts (overlay_run evs' ?s') = 3"
      using fl three by simp
  qed
  have empty: "(\<forall>ev \<in> set evs. \<not> brings_artwork ev) \<longrightarrow>
        displayedArtwork ?s = None \<and> nextArtwork ?s = None \<and> loading ?s
        \<and> render ?s = render overlay_mount"
  proof
    assume "\<forall>ev \<in> set evs. \<not> brings_artwork ev"
    then have e: "empty_loading ?s"
      using empty_stays_run [OF mount_empty] by simp
    then show "displayedArtwork ?s = None \<and> nextArtwork ?s = None \<and> loading ?s
        \<and> render ?s = render overlay_mount"
      using empty_render [OF e] empty_render [OF mount_empty] by (simp add: empty_loading_def)
  qed
  from start bound spacing success last empty show ?thesis by blast
qed

theorem initial_load_retries_witness:
  "loadArtwork_pc (overlay_run [] overlay_mount) = Awaiting 0 \<and> Suc 0 < 3
   \<and> \<not> succeeded (Rejected ''offline'')
   \<and> attempts (overlay_run [GetCurrentSettled (Rejected ''offline''), Elapse 199]
                 (overlay_run [] overlay_mount)) = 1
   \<and> attempts (overlay_run [GetCurrentSettled (Rejected ''offline''), Elapse 200]
                 (overlay_run [] overlay_mount)) = 2
   \<and> nextArtwork (overlay_step (GetCurrentSettled (Resolved (Some artwork_A)))
                    (overlay_run [] overlay_mount))
       = Some \<lparr>addr = 0, art = artwork_A\<rparr>
   \<and> attempts (overlay_run [Elapse 5000]
                 (overlay_step (GetCurrentSettled (Resolved (Some artwork_A)))
                    (overlay_run [] overlay_mount))) = 1
   \<and> \<not> brings_artwork (GetCurrentSettled (Rejected ''offline''))
   \<and> \<not> brings_artwork (Elapse 200)
   \<and> \<not> brings_artwork (GetCurrentSettled (Resolved None))
   \<and> nextArtwork (overlay_run [GetCurrentSettled (Rejected ''offline''), Elapse 200,
                    GetCurrentSettled (Resolved None), Elapse 200,
                    GetCurrentSettled (Resolved None)] overlay_mount) = None
   \<and> loading (overlay_run [GetCurrentSettled (Rejected ''offline''), Elapse 200,
                    GetCurrentSettled (Resolved None), Elapse 200,
                    GetCurrentSettled (Resolved None)] overlay_mount)"
proof -
  have pc: "loadArtwork_pc (overlay_run [] overlay_mount) = Awaiting 0"
    and at: "attempts (overlay_run [] overlay_mount) = 1"
    and na: "next_addr (overlay_run [] overlay_mount) = 0"
    by code_simp+
  have f: "\<not> succeeded (Rejected ''offline'')" by simp
  have nb: "\<forall>ev \<in> set [GetCurrentSettled (Rejected ''offline''), Elapse 200,
                    GetCurrentSettled (Resolved None), Elapse 200,
                    GetCurrentSettled (Resolved None)]. \<not> brings_artwork ev"
    by simp
  from initial_load_retries [of "[]" 0 "Rejected ''offline''" artwork_A "[Elapse 5000]"]
       initial_load_retries [of "[GetCurrentSettled (Rejected ''offline''), Elapse 200,
                    GetCurrentSettled (Resolved None), Elapse 200,
                    GetCurrentSettled (Resolved None)]"]
       pc at na f nb
  show ?thesis by (simp del: overlay_run.simps overlay_step.simps)
qed

text \<open>
  Claim C10.  While the loader waits for attempt \<open>k\<close>, an answer of none is handled as a
  thrown error is, the console warning apart.  If the attempt is not the third, it arms
  the 200 ms backoff and the loader sleeps; the next attempt is made once 200 ms have
  passed; only an answer carrying an artwork ends the loader at such an attempt.  After
  three answers of none, each later attempt made by the backoff, the loader has returned
  with three calls made, \<open>nextArtwork\<close> and \<open>displayedArtwork\<close> empty and \<open>loading\<close> true.
\<close>

theorem null_result_consumes_attempt:
  "(loadArtwork_pc s = Awaiting k \<longrightarrow>
      loadArtwork_settled (Rejected e) s
        = loadArtwork_settled (Resolved None) (s\<lparr>invoked := invoked s @ [Warn (k + 1)]\<rparr>)
      \<and> (Suc k < 3 \<longrightarrow>
            loadArtwork_pc (loadArtwork_settled (Resolved None) s) = Sleeping k
            \<and> timers (loadArtwork_settled (Resolved None) s)
                = timers s @ [(next_timer s, now s + 200, RetryWake k)]
            \<and> attempts (loadArtwork_settled (Resolved None) s) = attempts s)
      \<and> (Suc k < 3 \<and> loadArtwork_pc (loadArtwork_settled r s) = Finished \<longrightarrow> succeeded r)
      \<and> (\<not> Suc k < 3 \<longrightarrow>
            loadArtwork_pc (loadArtwork_settled (Resolved None) s) = Finished
            \<and> timers (loadArtwork_settled (Resolved None) s) = timers s
            \<and> nextArtwork (loadArtwork_settled (Resolved None) s) = nextArtwork s))
   \<and> (loadArtwork_pc (overlay_run evs overlay_mount) = Awaiting k \<and> Suc k < 3 \<longrightarrow>
        (\<forall>d < 200.
           attempts (overlay_run [GetCurrentSettled (Resolved None), Elapse d]
                       (overlay_run evs overlay_mount))
             = attempts (overlay_run evs overlay_mount))
        \<and> (\<forall>d \<ge> 200.
           attempts (overlay_run [GetCurrentSettled (Resolved None), Elapse d]
                       (overlay_run evs overlay_mount))
             = Suc (attempts (overlay_run evs overlay_mount))
           \<and> loadArtwork_pc (overlay_run [GetCurrentSettled (Resolved None), Elapse d]
                               (overlay_run evs overlay_mount))
               = Awaiting (Suc k)))
   \<and> (200 \<le> d1 \<and> 200 \<le> d2 \<longrightarrow>
        loadArtwork_pc
          (overlay_run [GetCurrentSettled (Resolved None), Elapse d1,
                        GetCurrentSettled (Resolved None), Elapse d2,
                        GetCurrentSettled (Resolved None)] overlay_mount) = Finished
        \<and> attempts
          (overlay_run [GetCurrentSettled (Resolved None), Elapse d1,
                        GetCurrentSettled (Resolved None), Elapse d2,
                        GetCurrentSettled (Resolved None)] overlay_mount) = 3
        \<and> nextArtwork
          (overlay_run [GetCurrentSettled (Resolved None), Elapse d1,
                        GetCurrentSettled (Resolved None), Elapse d2,
                        GetCurrentSettled (Resolved None)] overlay_mount) = None
        \<and> displayedArtwork
          (overlay_run [GetCurrentSettled (Resolved None), Elapse d1,
                        GetCurrentSettled (Resolved None), Elapse d2,
                        GetCurrentSettled (Resolved None)] overlay_mount) = None
        \<and> loading
          (overlay_run [GetCurrentSettled (Resolved None), Elapse d1,
                        GetCurrentSettled (Resolved None), Elapse d2,
                        GetCurrentSettled (Resolved None)] overlay_mount))"
proof -
  let ?null = "GetCurrentSettled (Resolved None)"
  have handler: "loadArtwork_pc s = Awaiting k \<longrightarrow>
      loadArtwork_settled (Rejected e) s
        = loadArtwork_settled (Resolved None) (s\<lparr>invoked := invoked s @ [Warn (k + 1)]\<rparr>)
      \<and> (Suc k < 3 \<longrightarrow>
            loadArtwork_pc (loadArtwork_settled (Resolved None) s) = Sleeping k
            \<and> timers (loadArtwork_settled (Resolved None) s)
                = timers s @ [(next_timer s, now s + 200, RetryWake k)]
            \<and> attempts (loadArtwork_settled (Resolved None) s) = attempts s)
      \<and> (Suc k < 3 \<and> loadArtwork_pc (loadArtwork_settled r s) = Finished \<longrightarrow> succeeded r)
      \<and> (\<not> Suc k < 3 \<longrightarrow>
            loadArtwork_pc (loadArtwork_settled (Resolved None) s) = Finished
            \<and> timers (loadArtwork_settled (Resolved None) s) = timers s
            \<and> nextArtwork (loadArtwork_settled (Resolved None) s) = nextArtwork s)"
  proof
    assume pc: "loadArtwork_pc s = Awaiting k"
    have same: "loadArtwork_settled (Rejected e) s
        = loadArtwork_settled (Resolved None) (s\<lparr>invoked := invoked s @ [Warn (k + 1)]\<rparr>)"
      using pc by (simp add: loadArtwork_settled_def)
    have sleep: "Suc k < 3 \<longrightarrow>
            loadArtwork_pc (loadArtwork_settled (Resolved None) s) = Sleeping k
            \<and> timers (loadArtwork_settled (Resolved None) s)
                = timers s @ [(next_timer s, now s + 200, RetryWake k)]
            \<and> attempts (loadArtwork_settled (Resolved None) s) = attempts s"
      using failure_backoff [OF pc, of "Resolved None"] by (simp add: retries_def)
    have early: "Suc k < 3 \<and> loadArtwork_pc (loadArtwork_settled r s) = Finished \<longrightarrow> succeeded r"
    proof (rule impI, rule ccontr)
      assume a: "Suc k < 3 \<and> loadArtwork_pc (loadArtwork_settled r s) = Finished"
        and n: "\<not> succeeded r"
      have "loadArtwork_pc (loadArtwork_settled r s) = Sleeping k"
        using failure_backoff [OF pc _ n] a by (simp add: retries_def)
      then show False using a by simp
    qed
    have fin: "\<not> Suc k < 3 \<longrightarrow>
            loadArtwork_pc (loadArtwork_settled (Resolved None) s) = Finished
            \<and> timers (loadArtwork_settled (Resolved None) s) = timers s
            \<and> nextArtwork (loadArtwork_settled (Resolved None) s) = nextArtwork s"
      using failure_last [OF pc, of "Resolved None"] by (simp add: retries_def)
    from same sleep early fin show "loadArtwork_settled (Rejected e) s
        = loadArtwork_settled (Resolved None) (s\<lparr>invoked := invoked s @ [Warn (k + 1)]\<rparr>)
      \<and> (Suc k < 3 \<longrightarrow>
            loadArtwork_pc (loadArtwork_settled (Resolved None) s) = Sleeping k
            \<and> timers (loadArtwork_settled (Resolved None) s)
                = timers s @ [(next_timer s, now s + 200, RetryWake k)]
            \<and> attempts (loadArtwork_settled (Resolved None) s) = attempts s)
      \<and> (Suc k < 3 \<and> loadArtwork_pc (loadArtwork_settled r s) = Finished \<longrightarrow> succeeded r)
      \<and> (\<not> Suc k < 3 \<longrightarrow>
            loadArtwork_pc (loadArtwork_settled (Resolved None) s) = Finished
            \<and> timers (loadArtwork_settled (Resolved None) s) = timers s
            \<and> nextArtwork (loadArtwork_settled (Resolved None) s) = nextArtwork s)"
      by blast
  qed
  have step2: "\<And>evs k d. loadArtwork_pc (overlay_run evs overlay_mount) = Awaiting k \<Longrightarrow> Suc k < 3 \<Longrightarrow>
      (d < 200 \<longrightarrow> attempts (overlay_run [?null, Elapse d] (overlay_run evs overlay_mount))
                     = attempts (overlay_run evs overlay_mount))
      \<and> (200 \<le> d \<longrightarrow> attempts (overlay_run [?null, Elapse d] (overlay_run evs overlay_mount))
                     = Suc (attempts (overlay_run evs overlay_mount))
                   \<and> loadArtwork_pc (overlay_run [?null, Elapse d] (overlay_run evs overlay_mount))
                     = Awaiting (Suc k))"
  proof -
    fix evs k d
    assume pc: "loadArtwork_pc (overlay_run evs overlay_mount) = Awaiting k" and lt: "Suc k < 3"
    have inv: "overlay_inv (overlay_run evs overlay_mount)"
      using reachable_inv by simp
    show "(d < 200 \<longrightarrow> attempts (overlay_run [?null, Elapse d] (overlay_run evs overlay_mount))
                     = attempts (overlay_run evs overlay_mount))
      \<and> (200 \<le> d \<longrightarrow> attempts (overlay_run [?null, Elapse d] (overlay_run evs overlay_mount))
                     = Suc (attempts (overlay_run evs overlay_mount))
                   \<and> loadArtwork_pc (overlay_run [?null, Elapse d] (overlay_run evs overlay_mount))
                     = Awaiting (Suc k))"
      using failure_spacing [OF inv pc, of "Resolved None"] lt by (simp add: retries_def)
  qed
  have spaced: "loadArtwork_pc (overlay_run evs overlay_mount) = Awaiting k \<and> Suc k < 3 \<longrightarrow>
        (\<forall>d < 200. attempts (overlay_run [?null, Elapse d] (overlay_run evs overlay_mount))
             = attempts (overlay_run evs overlay_mount))
        \<and> (\<forall>d \<ge> 200. attempts (overlay_run [?null, Elapse d] (overlay_run evs overlay_mount))
             = Suc (attempts (overlay_run evs overlay_mount))
           \<and> loadArtwork_pc (overlay_run [?null, Elapse d] (overlay_run evs overlay_mount))
               = Awaiting (Suc k))"
    using step2 [of evs k] by blast
  have three: "200 \<le> d1 \<and> 200 \<le> d2 \<longrightarrow>
        loadArtwork_pc (overlay_run [?null, Elapse d1, ?null, Elapse d2, ?null] overlay_mount) = Finished
        \<and> attempts (overlay_run [?null, Elapse d1, ?null, Elapse d2, ?null] overlay_mount) = 3
        \<and> nextArtwork (overlay_run [?null, Elapse d1, ?null, Elapse d2, ?null] overlay_mount) = None
        \<and> displayedArtwork (overlay_run [?null, Elapse d1, ?null, Elapse d2, ?null] overlay_mount) = None
        \<and> loading (overlay_run [?null, Elapse d1, ?null, Elapse d2, ?null] overlay_mount)"
  proof
    assume d: "200 \<le> d1 \<and> 200 \<le> d2"
    let ?t1 = "[?null, Elapse d1]" and ?t2 = "[?null, Elapse d1, ?null, Elapse d2]"
    have pc0: "loadArtwork_pc (overlay_run [] overlay_mount) = Awaiting 0"
      and at0: "attempts (overlay_run [] overlay_mount) = 1"
      by (simp_all add: attempts_def overlay_mount_def overlay_init_def loadArtwork_loop_def
            retries_def invoke_def setTimeout_def Let_def)
    have s1: "loadArtwork_pc (overlay_run ?t1 overlay_mount) = Awaiting 1
              \<and> attempts (overlay_run ?t1 overlay_mount) = 2"
      using step2 [of "[]" 0 d1] pc0 at0 d by (simp del: overlay_step.simps)
    have r2: "overlay_run ?t2 overlay_mount = overlay_run [?null, Elapse d2] (overlay_run ?t1 overlay_mount)"
      by simp
    have s2: "loadArtwork_pc (overlay_run ?t2 overlay_mount) = Awaiting 2
              \<and> attempts (overlay_run ?t2 overlay_mount) = 3"
      using step2 [of ?t1 1 d2] s1 d unfolding r2 by (simp del: overlay_step.simps overlay_run.simps)
    have r3: "overlay_run [?null, Elapse d1, ?null, Elapse d2, ?null] overlay_mount
              = loadArtwork_settled (Resolved None) (overlay_run ?t2 overlay_mount)"
      by simp
    have fl: "loadArtwork_pc (loadArtwork_settled (Resolved None) (overlay_run ?t2 overlay_mount)) = Finished
      \<and> attempts (loadArtwork_settled (Resolved None) (overlay_run ?t2 overlay_mount)) = 3"
      using failure_last [of "overlay_run ?t2 overlay_mount" 2 "Resolved None"] s2
      by (simp add: retries_def)
    have "\<forall>ev \<in> set [?null, Elapse d1, ?null, Elapse d2, ?null]. \<not> brings_artwork ev"
      by simp
    then have "empty_loading (overlay_run [?null, Elapse d1, ?null, Elapse d2, ?null] overlay_mount)"
      by (rule empty_stays_run [OF mount_empty])
    then show "loadArtwork_pc (overlay_run [?null, Elapse d1, ?null, Elapse d2, ?null] overlay_mount) = Finished
        \<and> attempts (overlay_run [?null, Elapse d1, ?null, Elapse d2, ?null] overlay_mount) = 3
        \<and> nextArtwork (overlay_run [?null, Elapse d1, ?null, Elapse d2, ?null] overlay_mount) = None
        \<and> displayedArtwork (overlay_run [?null, Elapse d1, ?null, Elapse d2, ?null] overlay_mount) = None
        \<and> loading (overlay_run [?null, Elapse d1, ?null, Elapse d2, ?null] overlay_mount)"
      using fl unfolding r3 [symmetric] by (simp add: empty_loading_def del: overlay_run.simps)
  qed
  from handler spaced three show ?thesis by blast
qed

theorem null_result_consumes_attempt_witness:
  "loadArtwork_pc overlay_mount = Awaiting 0 \<and> Suc 0 < 3
   \<and> loadArtwork_pc (loadArtwork_settled (Resolved None) overlay_mount) = Sleeping 0
   \<and> timers (loadArtwork_settled (Resolved None) overlay_mount)
       = [(1, 3000, SafetyTimeout), (2, 200, RetryWake 0)]
   \<and> (200::nat) \<le> 200 \<and> (200::nat) \<le> 250
   \<and> loadArtwork_pc
        (overlay_run [GetCurrentSettled (Resolved None), Elapse 200,
                      GetCurrentSettled (Resolved None), Elapse 250,
                      GetCurrentSettled (Resolved None)] overlay_mount) = Finished
   \<and> nextArtwork
        (overlay_run [GetCurrentSettled (Resolved None), Elapse 200,
                      GetCurrentSettled (Resolved None), Elapse 250,
                      GetCurrentSettled (Resolved None)] overlay_mount) = None
   \<and> loading
        (overlay_run [GetCurrentSettled (Resolved None), Elapse 200,
                      GetCurrentSettled (Resolved None), Elapse 250,
                      GetCurrentSettled (Resolved None)] overlay_mount)"
proof -
  have pc: "loadArtwork_pc overlay_mount = Awaiting 0"
    and tm: "timers overlay_mount = [(1, 3000, SafetyTimeout)]"
    and nt: "next_timer overlay_mount = 2" and nw: "now overlay_mount = 0"
    by code_simp+
  from null_result_consumes_attempt [of overlay_mount 0 "''e''" "Resolved None" "[]" 200 250]
       pc tm nt nw
  show ?thesis by (simp del: overlay_run.simps overlay_step.simps)
qed

section \<open>Which artwork a decode-complete event displays\<close>

lemma fire_buffers:
  "nextArtwork (overlay_fire cb x) = nextArtwork x
   \<and> displayedArtwork (overlay_fire cb x) = displayedArtwork x
   \<and> next_addr (overlay_fire cb x) = next_addr x"
  by (cases cb) (simp_all add: invoke_def loadArtwork_loop_def)

lemma elapse_buffers:
  "nextArtwork (overlay_run_timers target x) = nextArtwork x
   \<and> displayedArtwork (overlay_run_timers target x) = displayedArtwork x
   \<and> next_addr (overlay_run_timers target x) = next_addr x"
  by (rule overlay_run_timers_rule
        [where P = "\<lambda>y. nextArtwork y = nextArtwork x \<and> displayedArtwork y = displayedArtwork x
                        \<and> next_addr y = next_addr x"])
     (simp_all add: fire_buffers)

lemma failed_buffers:
  assumes "\<not> succeeded r"
  shows "nextArtwork (loadArtwork_settled r x) = nextArtwork x
     \<and> displayedArtwork (loadArtwork_settled r x) = displayedArtwork x
     \<and> next_addr (loadArtwork_settled r x) = next_addr x"
proof (cases r)
  case (Resolved ao)
  then have "ao = None" using assms by (cases ao) simp_all
  then show ?thesis
    using Resolved
    by (simp add: loadArtwork_settled_def loadArtwork_backoff_def loadArtwork_loop_def
          setTimeout_def invoke_def Let_def split: loader.splits)
next
  case (Rejected e)
  then show ?thesis
    by (simp add: loadArtwork_settled_def loadArtwork_backoff_def loadArtwork_loop_def
          setTimeout_def invoke_def Let_def split: loader.splits)
qed

lemma step_quiet_frame:
  assumes "quiet ev" and "\<forall>p. ev \<noteq> ArtworkChanged p"
  shows "nextArtwork (overlay_step ev x) = nextArtwork x
     \<and> displayedArtwork (overlay_step ev x) = displayedArtwork x
     \<and> next_addr (overlay_step ev x) = next_addr x"
proof (cases ev)
  case (Elapse d)
  then show ?thesis using elapse_buffers by simp
next
  case (GetCurrentSettled r)
  then show ?thesis using assms failed_buffers by simp
qed (use assms in \<open>simp_all add: reset_buffers overlay_onKeyDown_def onMouseMove_def
        invoke_def\<close>)

lemma quiet_run:
  assumes "attached s" and "\<forall>ev \<in> set es. quiet ev"
  shows "displayedArtwork (overlay_run es s) = displayedArtwork s
     \<and> next_addr s \<le> next_addr (overlay_run es s)
     \<and> (case last_notified es of
           None \<Rightarrow> nextArtwork (overlay_run es s) = nextArtwork s
         | Some p \<Rightarrow>
             (\<exists>a. nextArtwork (overlay_run es s) = Some \<lparr>addr = a, art = p\<rparr>
                  \<and> next_addr s \<le> a \<and> a < next_addr (overlay_run es s)))"
  using assms
proof (induction es arbitrary: s)
  case Nil
  then show ?case by simp
next
  case (Cons ev es)
  let ?s1 = "overlay_step ev s"
  have q: "quiet ev" and qs: "\<forall>ev \<in> set es. quiet ev"
    using Cons.prems by simp_all
  have nt: "Teardown \<noteq> ev" using q by auto
  have a1: "attached ?s1"
    using Cons.prems(1) step_attached [OF nt, of s] by simp
  note ih = Cons.IH [OF a1 qs]
  have st: "displayedArtwork ?s1 = displayedArtwork s \<and> next_addr s \<le> next_addr ?s1
        \<and> (case ev of
              ArtworkChanged p \<Rightarrow> nextArtwork ?s1 = Some \<lparr>addr = next_addr s, art = p\<rparr>
                                  \<and> next_addr ?s1 = Suc (next_addr s)
            | _ \<Rightarrow> nextArtwork ?s1 = nextArtwork s)"
  proof (cases "\<exists>p. ev = ArtworkChanged p")
    case True
    then obtain p where "ev = ArtworkChanged p" by blast
    then show ?thesis
      using Cons.prems(1) by (simp add: attached_def changed_buffers)
  next
    case False
    then have "\<forall>p. ev \<noteq> ArtworkChanged p" by blast
    then show ?thesis
      using step_quiet_frame [OF q, of s] by (cases ev) simp_all
  qed
  show ?case
  proof (cases "last_notified es")
    case (Some p)
    then show ?thesis
      using ih st by (auto simp del: overlay_step.simps)
  next
    case None
    show ?thesis
    proof (cases "\<exists>p. ev = ArtworkChanged p")
      case True
      then obtain p where ev: "ev = ArtworkChanged p" by blast
      have nx: "nextArtwork (overlay_run es ?s1) = Some \<lparr>addr = next_addr s, art = p\<rparr>"
        and lt: "next_addr s < next_addr (overlay_run es ?s1)"
        using ih st None ev by (simp_all del: overlay_step.simps)
      have d: "displayedArtwork (overlay_run es ?s1) = displayedArtwork s"
        using ih st by (simp del: overlay_step.simps)
      have "\<exists>a. nextArtwork (overlay_run es ?s1) = Some \<lparr>addr = a, art = p\<rparr>
                 \<and> next_addr s \<le> a \<and> a < next_addr (overlay_run es ?s1)"
        using nx lt by (intro exI [of _ "next_addr s"]) simp
      then show ?thesis
        using d lt None ev by (simp del: overlay_step.simps)
    next
      case False
      then have "last_notified (ev # es) = None"
        using None by (cases ev) simp_all
      moreover have "nextArtwork ?s1 = nextArtwork s"
        using st False by (cases ev) simp_all
      ultimately show ?thesis
        using ih st None by (simp del: overlay_step.simps)
    qed
  qed
qed

lemma quiet_no_teardown: "\<forall>ev \<in> set es. quiet ev \<Longrightarrow> Teardown \<notin> set es"
  by auto

lemma load_promotes:
  "next_image_rendered x \<Longrightarrow>
   displayedArtwork (overlay_step (ImageLoad src) x) = nextArtwork x
   \<and> nextArtwork (overlay_step (ImageLoad src) x) = None
   \<and> \<not> loading (overlay_step (ImageLoad src) x)"
  by (simp add: onImageLoaded_def invoke_def Let_def)

text \<open>
  Claim C1, as the code has it.  In a mounted controller an artwork-change notification
  overwrites \<open>nextArtwork\<close> and so does an answer of the initial load that carries an
  artwork; neither touches \<open>displayedArtwork\<close>, and no other event but a decode-complete
  changes either of the two.  A decode-complete event of the rendered next image moves
  what \<open>nextArtwork\<close> holds into \<open>displayedArtwork\<close> and empties \<open>nextArtwork\<close>; without
  a rendered next image it changes nothing.  Hence after quiet events with at least one
  notification among them, the next decode-complete event displays the artwork of the
  last notification and none notified earlier; but an answer of the initial load arriving
  after the last notification replaces it, and the decode-complete event then displays
  the artwork of that answer.
\<close>

theorem pending_promoted_on_decode:
  "(Teardown \<notin> set evs \<and> (\<forall>ev \<in> set es. quiet ev) \<and> last_notified es = Some p \<longrightarrow>
      displayedArtwork (overlay_run es (overlay_run evs overlay_mount))
        = displayedArtwork (overlay_run evs overlay_mount)
      \<and> map_option art (nextArtwork (overlay_run es (overlay_run evs overlay_mount))) = Some p
      \<and> map_option art
           (displayedArtwork
              (overlay_step (ImageLoad src) (overlay_run es (overlay_run evs overlay_mount))))
          = Some p
      \<and> nextArtwork
           (overlay_step (ImageLoad src) (overlay_run es (overlay_run evs overlay_mount)))
          = None)
   \<and> (Teardown \<notin> set evs \<and> (\<forall>ev \<in> set es. quiet ev)
        \<and> loadArtwork_pc (overlay_run es (overlay_run evs overlay_mount)) = Awaiting k \<longrightarrow>
      displayedArtwork
        (overlay_step (GetCurrentSettled (Resolved (Some a)))
           (overlay_run es (overlay_run evs overlay_mount)))
        = displayedArtwork (overlay_run evs overlay_mount)
      \<and> map_option art
           (nextArtwork
              (overlay_step (GetCurrentSettled (Resolved (Some a)))
                 (overlay_run es (overlay_run evs overlay_mount))))
          = Some a
      \<and> map_option art
           (displayedArtwork
              (overlay_step (ImageLoad src)
                 (overlay_step (GetCurrentSettled (Resolved (Some a)))
                    (overlay_run es (overlay_run evs overlay_mount)))))
          = Some a)
   \<and> ((quiet ev \<or> ev = Teardown) \<and> (\<forall>q. ev \<noteq> ArtworkChanged q) \<longrightarrow>
        nextArtwork (overlay_step ev x) = nextArtwork x
        \<and> displayedArtwork (overlay_step ev x) = displayedArtwork x)
   \<and> (next_image_rendered x \<longrightarrow>
        displayedArtwork (overlay_step (ImageLoad src) x) = nextArtwork x
        \<and> nextArtwork (overlay_step (ImageLoad src) x) = None)
   \<and> (\<not> next_image_rendered x \<longrightarrow> overlay_step (ImageLoad src) x = x)"
proof -
  let ?s = "overlay_run evs overlay_mount"
  let ?y = "overlay_run es ?s"
  have inv: "overlay_inv ?s \<and> armed_ahead ?s"
    using reachable_inv by simp
  have invy: "overlay_inv ?y"
    using run_inv [OF inv] by simp
  have notified: "Teardown \<notin> set evs \<and> (\<forall>ev \<in> set es. quiet ev) \<and> last_notified es = Some p \<longrightarrow>
      displayedArtwork ?y = displayedArtwork ?s
      \<and> map_option art (nextArtwork ?y) = Some p
      \<and> map_option art (displayedArtwork (overlay_step (ImageLoad src) ?y)) = Some p
      \<and> nextArtwork (overlay_step (ImageLoad src) ?y) = None"
  proof
    assume a: "Teardown \<notin> set evs \<and> (\<forall>ev \<in> set es. quiet ev) \<and> last_notified es = Some p"
    then have att: "attached ?s"
      using run_attached [of evs overlay_mount] mount_attached by simp
    have atty: "attached ?y"
      using run_attached [of es ?s] att a quiet_no_teardown by blast
    from quiet_run [OF att, of es] a obtain n where
      d: "displayedArtwork ?y = displayedArtwork ?s"
      and nx: "nextArtwork ?y = Some \<lparr>addr = n, art = p\<rparr>" and ge: "next_addr ?s \<le> n"
      by auto
    have old: "\<forall>obj. displayedArtwork ?s = Some obj \<longrightarrow> addr obj < next_addr ?s"
      using inv by (simp add: overlay_inv_def addrs_ok_def)
    have r: "next_image_rendered ?y"
      using atty d nx ge old
      by (fastforce simp: next_image_rendered_def attached_def split: option.splits)
    show "displayedArtwork ?y = displayedArtwork ?s
      \<and> map_option art (nextArtwork ?y) = Some p
      \<and> map_option art (displayedArtwork (overlay_step (ImageLoad src) ?y)) = Some p
      \<and> nextArtwork (overlay_step (ImageLoad src) ?y) = None"
      using load_promotes [OF r, of src] d nx by (simp del: overlay_step.simps)
  qed
  have answered: "Teardown \<notin> set evs \<and> (\<forall>ev \<in> set es. quiet ev)
        \<and> loadArtwork_pc ?y = Awaiting k \<longrightarrow>
      displayedArtwork (overlay_step (GetCurrentSettled (Resolved (Some a))) ?y)
        = displayedArtwork ?s
      \<and> map_option art (nextArtwork (overlay_step (GetCurrentSettled (Resolved (Some a))) ?y))
          = Some a
      \<and> map_option art
           (displayedArtwork
              (overlay_step (ImageLoad src)
                 (overlay_step (GetCurrentSettled (Resolved (Some a))) ?y)))
          = Some a"
  proof
    assume a: "Teardown \<notin> set evs \<and> (\<forall>ev \<in> set es. quiet ev) \<and> loadArtwork_pc ?y = Awaiting k"
    let ?z = "overlay_step (GetCurrentSettled (Resolved (Some a))) ?y"
    have att: "attached ?s"
      using run_attached [of evs overlay_mount] mount_attached a by simp
    have atty: "attached ?y"
      using run_attached [of es ?s] att a quiet_no_teardown by blast
    have attz: "attached ?z"
      using step_attached [of "GetCurrentSettled (Resolved (Some a))" ?y] atty by simp
    have d: "displayedArtwork ?y = displayedArtwork ?s"
      using quiet_run [OF att, of es] a by simp
    have res: "nextArtwork ?z = Some \<lparr>addr = next_addr ?y, art = a\<rparr>"
      "displayedArtwork ?z = displayedArtwork ?y"
      using success_result [OF invy, of k a] a by simp_all
    have old: "\<forall>obj. displayedArtwork ?y = Some obj \<longrightarrow> addr obj < next_addr ?y"
      using invy by (simp add: overlay_inv_def addrs_ok_def)
    have r: "next_image_rendered ?z"
      using attz res old
      by (fastforce simp: next_image_rendered_def attached_def split: option.splits)
    show "displayedArtwork ?z = displayedArtwork ?s
      \<and> map_option art (nextArtwork ?z) = Some a
      \<and> map_option art (displayedArtwork (overlay_step (ImageLoad src) ?z)) = Some a"
      using load_promotes [OF r, of src] res d by (simp del: overlay_step.simps)
  qed
  have "nextArtwork (teardown x) = nextArtwork x
        \<and> displayedArtwork (teardown x) = displayedArtwork x"
    by (simp add: teardown_def clearTimeout_def Let_def split: option.splits)
  then have frame: "(quiet ev \<or> ev = Teardown) \<and> (\<forall>q. ev \<noteq> ArtworkChanged q) \<longrightarrow>
        nextArtwork (overlay_step ev x) = nextArtwork x
        \<and> displayedArtwork (overlay_step ev x) = displayedArtwork x"
    using step_quiet_frame [of ev x] by auto
  have promote: "next_image_rendered x \<longrightarrow>
        displayedArtwork (overlay_step (ImageLoad src) x) = nextArtwork x
        \<and> nextArtwork (overlay_step (ImageLoad src) x) = None"
    using load_promotes [of x src] by blast
  have idle: "\<not> next_image_rendered x \<longrightarrow> overlay_step (ImageLoad src) x = x"
    by simp
  from notified answered frame promote idle show ?thesis by blast
qed

theorem pending_promoted_on_decode_witness:
  "Teardown \<notin> set [KeyDown ''ArrowRight'']
   \<and> quiet (ArtworkChanged artwork_A) \<and> quiet MouseMove \<and> quiet (ArtworkChanged artwork_B)
   \<and> quiet (Elapse 50)
   \<and> last_notified [ArtworkChanged artwork_A, MouseMove, ArtworkChanged artwork_B, Elapse 50]
       = Some artwork_B
   \<and> map_option art
        (displayedArtwork
           (overlay_step (ImageLoad (image_base64 artwork_B))
              (overlay_run [ArtworkChanged artwork_A, MouseMove, ArtworkChanged artwork_B,
                            Elapse 50]
                 (overlay_run [KeyDown ''ArrowRight''] overlay_mount))))
       = Some artwork_B
   \<and> loadArtwork_pc
        (overlay_run [ArtworkChanged artwork_A, MouseMove, ArtworkChanged artwork_B, Elapse 50]
           (overlay_run [KeyDown ''ArrowRight''] overlay_mount)) = Awaiting 0
   \<and> map_option art
        (displayedArtwork
           (overlay_step (ImageLoad (image_base64 artwork_A))
              (overlay_step (GetCurrentSettled (Resolved (Some artwork_A)))
                 (overlay_run [ArtworkChanged artwork_A, MouseMove, ArtworkChanged artwork_B,
                               Elapse 50]
                    (overlay_run [KeyDown ''ArrowRight''] overlay_mount)))))
       = Some artwork_A"
proof -
  let ?es = "[ArtworkChanged artwork_A, MouseMove, ArtworkChanged artwork_B, Elapse 50]"
  have q: "\<forall>ev \<in> set ?es. quiet ev" by simp
  have t: "Teardown \<notin> set [KeyDown ''ArrowRight'']" by simp
  have l: "last_notified ?es = Some artwork_B" by simp
  have pc: "loadArtwork_pc (overlay_run ?es (overlay_run [KeyDown ''ArrowRight''] overlay_mount))
              = Awaiting 0"
    by code_simp
  from pending_promoted_on_decode
         [of "[KeyDown ''ArrowRight'']" ?es artwork_B "image_base64 artwork_B" 0 artwork_A]
       q t l
  have 1: "map_option art
        (displayedArtwork
           (overlay_step (ImageLoad (image_base64 artwork_B))
              (overlay_run ?es (overlay_run [KeyDown ''ArrowRight''] overlay_mount))))
       = Some artwork_B"
    by blast
  from pending_promoted_on_decode
         [of "[KeyDown ''ArrowRight'']" ?es artwork_B "image_base64 artwork_A" 0 artwork_A]
       q t pc
  have 2: "map_option art
        (displayedArtwork
           (overlay_step (ImageLoad (image_base64 artwork_A))
              (overlay_step (GetCurrentSettled (Resolved (Some artwork_A)))
                 (overlay_run ?es (overlay_run [KeyDown ''ArrowRight''] overlay_mount)))))
       = Some artwork_A"
    by blast
  from 1 2 pc l show ?thesis by simp
qed

theorem late_initial_load_counterexample:
  "nextArtwork (overlay_run [ArtworkChanged artwork_A, ArtworkChanged artwork_B] overlay_mount)
     = Some \<lparr>addr = 1, art = artwork_B\<rparr>
   \<and> artwork_A \<noteq> artwork_B
   \<and> displayedArtwork
        (overlay_run [ArtworkChanged artwork_A, ArtworkChanged artwork_B,
                      GetCurrentSettled (Resolved (Some artwork_A)),
                      ImageLoad (image_base64 artwork_A)] overlay_mount)
       = Some \<lparr>addr = 2, art = artwork_A\<rparr>
   \<and> displayedArtwork
        (overlay_run [ArtworkChanged artwork_A, ArtworkChanged artwork_B,
                      GetCurrentSettled (Resolved (Some artwork_A)),
                      ImageLoad (image_base64 artwork_A)] overlay_mount)
       \<noteq> Some \<lparr>addr = 1, art = artwork_B\<rparr>"
proof -
  have 1: "nextArtwork (overlay_run [ArtworkChanged artwork_A, ArtworkChanged artwork_B] overlay_mount)
     = Some \<lparr>addr = 1, art = artwork_B\<rparr>"
    by code_simp
  have 2: "artwork_A \<noteq> artwork_B"
    by (simp add: artwork_A_def artwork_B_def)
  have 3: "displayedArtwork
        (overlay_run [ArtworkChanged artwork_A, ArtworkChanged artwork_B,
                      GetCurrentSettled (Resolved (Some artwork_A)),
                      ImageLoad (image_base64 artwork_A)] overlay_mount)
       = Some \<lparr>addr = 2, art = artwork_A\<rparr>"
    by code_simp
  from 1 2 3 show ?thesis by simp
qed

section \<open>Timers at teardown\<close>

lemma teardown_cancels:
  assumes "overlay_inv s"
  shows "\<forall>t \<in> set (timers (teardown s)). snd (snd t) \<noteq> HideInfo \<and> snd (snd t) \<noteq> SafetyTimeout"
proof -
  have own: "\<forall>t \<in> set (timers s). (snd (snd t) = HideInfo) = (infoTimer s = Some (fst t))"
    "\<forall>t \<in> set (timers s). (snd (snd t) = SafetyTimeout) = (fst t = safetyTimeout s)"
    and pos: "\<forall>t \<in> set (timers s). 0 < fst t"
    using assms by (simp_all add: overlay_inv_def owners_ok_def handles_ok_def)
  show ?thesis
  proof (cases "infoTimer s")
    case None
    then show ?thesis
      using own by (auto simp: teardown_def clearTimeout_def Let_def)
  next
    case (Some h)
    show ?thesis
    proof (cases "h = 0")
      case True
      then have "\<forall>t \<in> set (timers s). snd (snd t) \<noteq> HideInfo"
        using own(1) pos Some by fastforce
      then show ?thesis
        using own(2) Some True by (auto simp: teardown_def clearTimeout_def Let_def)
    next
      case False
      then show ?thesis
        using own Some by (auto simp: teardown_def clearTimeout_def Let_def)
    qed
  qed
qed

lemma teardown_latches: "showInfo (teardown s) = showInfo s \<and> shown (teardown s) = shown s"
  by (simp add: teardown_def clearTimeout_def Let_def split: option.splits)

lemma elapse_without_info_safety:
  assumes "\<forall>t \<in> set (timers s). snd (snd t) \<noteq> HideInfo \<and> snd (snd t) \<noteq> SafetyTimeout"
  shows "showInfo (overlay_run_timers target s) = showInfo s
       \<and> shown (overlay_run_timers target s) = shown s"
proof (rule overlay_run_timers_rule
         [where P = "\<lambda>x. showInfo x = showInfo s \<and> shown x = shown s
                    \<and> (\<forall>t \<in> set (timers x). snd (snd t) \<noteq> HideInfo \<and> snd (snd t) \<noteq> SafetyTimeout)"])
  show "showInfo s = showInfo s \<and> shown s = shown s
        \<and> (\<forall>t \<in> set (timers s). snd (snd t) \<noteq> HideInfo \<and> snd (snd t) \<noteq> SafetyTimeout)"
    using assms by simp
next
  fix x :: overlay and h due cb
  assume p: "showInfo x = showInfo s \<and> shown x = shown s
        \<and> (\<forall>t \<in> set (timers x). snd (snd t) \<noteq> HideInfo \<and> snd (snd t) \<noteq> SafetyTimeout)"
    and e: "earliest (timers x) = Some (h, due, cb)"
  have "cb \<noteq> HideInfo \<and> cb \<noteq> SafetyTimeout"
    using p earliest_mem [OF e] by fastforce
  then show "showInfo (overlay_fire cb (x\<lparr>now := max (now x) due,
                 timers := filter (\<lambda>t. fst t \<noteq> h) (timers x)\<rparr>)) = showInfo s
       \<and> shown (overlay_fire cb (x\<lparr>now := max (now x) due,
                 timers := filter (\<lambda>t. fst t \<noteq> h) (timers x)\<rparr>)) = shown s
       \<and> (\<forall>t \<in> set (timers (overlay_fire cb (x\<lparr>now := max (now x) due,
                 timers := filter (\<lambda>t. fst t \<noteq> h) (timers x)\<rparr>))).
             snd (snd t) \<noteq> HideInfo \<and> snd (snd t) \<noteq> SafetyTimeout)"
    using p by (simp add: fire_showInfo fire_shown)
qed simp

text \<open>
  Claim C7, as the code has it.  The cleanup of the overlay cancels the two timers whose
  handles the component keeps: after teardown no info-bar countdown and no safety timeout
  is armed, and the passing of time alone changes neither \<open>showInfo\<close> nor \<open>shown\<close>.  The
  settings panel has no cleanup: unmounting it leaves its timers armed, the
  saved-indicator timer among them.
\<close>

theorem teardown_cancels_kept_handles:
  "(\<forall>t \<in> set (timers (overlay_step Teardown (overlay_run evs overlay_mount))).
      snd (snd t) \<noteq> HideInfo \<and> snd (snd t) \<noteq> SafetyTimeout)
   \<and> showInfo (overlay_step (Elapse d) (overlay_step Teardown (overlay_run evs overlay_mount)))
       = showInfo (overlay_run evs overlay_mount)
   \<and> shown (overlay_step (Elapse d) (overlay_step Teardown (overlay_run evs overlay_mount)))
       = shown (overlay_run evs overlay_mount)
   \<and> timers (panel_teardown (panel_run upper pevs panel_mount)) = timers (panel_run upper pevs panel_mount)"
proof -
  let ?s = "overlay_run evs overlay_mount"
  have inv: "overlay_inv ?s"
    using reachable_inv by simp
  have c: "\<forall>t \<in> set (timers (teardown ?s)). snd (snd t) \<noteq> HideInfo \<and> snd (snd t) \<noteq> SafetyTimeout"
    using inv by (rule teardown_cancels)
  have "showInfo (overlay_run_timers (now (teardown ?s) + d) (teardown ?s)) = showInfo (teardown ?s)
       \<and> shown (overlay_run_timers (now (teardown ?s) + d) (teardown ?s)) = shown (teardown ?s)"
    using c by (rule elapse_without_info_safety)
  then show ?thesis
    using c teardown_latches [of ?s] by (simp add: panel_teardown_def)
qed

theorem teardown_cancels_kept_handles_witness:
  "timers (overlay_run [MouseMove] overlay_mount)
     = [(1, 3000, SafetyTimeout), (2, 4000, HideInfo)]
   \<and> timers (overlay_step Teardown (overlay_run [MouseMove] overlay_mount)) = []
   \<and> showInfo (overlay_step (Elapse 5000)
                 (overlay_step Teardown (overlay_run [MouseMove] overlay_mount)))
   \<and> \<not> shown (overlay_step (Elapse 5000)
                 (overlay_step Teardown (overlay_run [MouseMove] overlay_mount)))"
proof -
  have t: "timers (overlay_run [MouseMove] overlay_mount)
             = [(1, 3000, SafetyTimeout), (2, 4000, HideInfo)]"
    and t': "timers (overlay_step Teardown (overlay_run [MouseMove] overlay_mount)) = []"
    and i: "showInfo (overlay_run [MouseMove] overlay_mount)"
    and r: "\<not> shown (overlay_run [MouseMove] overlay_mount)"
    by code_simp+
  from teardown_cancels_kept_handles [of "[MouseMove]" 5000 ascii_upper "[]"] t t' i r
  show ?thesis by (simp del: overlay_run.simps overlay_step.simps)
qed

theorem timers_survive_teardown_counterexample:
  "timers (overlay_run [GetCurrentSettled (Rejected ''offline''), Teardown] overlay_mount)
     = [(2, 200, RetryWake 0)]
   \<and> invoked (overlay_run [GetCurrentSettled (Rejected ''offline''), Teardown] overlay_mount)
       = [Invoke ''get_current_artwork'' None, Warn 1]
   \<and> invoked (overlay_run [GetCurrentSettled (Rejected ''offline''), Teardown, Elapse 200]
                 overlay_mount)
       = [Invoke ''get_current_artwork'' None, Warn 1, Invoke ''get_current_artwork'' None]
   \<and> timers (panel_teardown
               (panel_run ascii_upper [GotHotkey (js ''CmdOrCtrl+S''), ClickSave, SaveSettled (Inr ())]
                  panel_mount))
       = [(1, 2000, ClearSaved)]
   \<and> saved (panel_teardown
               (panel_run ascii_upper [GotHotkey (js ''CmdOrCtrl+S''), ClickSave, SaveSettled (Inr ())]
                  panel_mount))
   \<and> \<not> saved (panel_step ascii_upper (PanelElapse 2000)
                 (panel_teardown
                    (panel_run ascii_upper [GotHotkey (js ''CmdOrCtrl+S''), ClickSave, SaveSettled (Inr ())]
                       panel_mount)))"
  by code_simp

end
